theory Spec2Isabelle
  imports Main "HOL-Library.AList"
begin


section \<open>JavaScript strings\<close>

text \<open>
  A string is a list of code units; the model covers the code units below 256, which
  Isabelle's \<open>char\<close> holds.  \<open>is_space\<close> is the set that both the regular-expression
  class \<^verbatim>\<open>\s\<close> and \<^verbatim>\<open>String.prototype.trim\<close> use (tab, line feed, vertical tab, form
  feed, carriage return, space, no-break space), \<open>is_line_terminator\<close> the set that
  \<^verbatim>\<open>.\<close> excludes and that \<^verbatim>\<open>^\<close> with the \<^verbatim>\<open>m\<close> flag looks behind for.
\<close>

definition is_space :: "char \<Rightarrow> bool" where
  "is_space c \<longleftrightarrow>
     c = CHR 0x09 \<or> c = CHR 0x0A \<or> c = CHR 0x0B \<or> c = CHR 0x0C \<or> c = CHR 0x0D \<or>
     c = CHR 0x20 \<or> c = CHR 0xA0"

definition is_line_terminator :: "char \<Rightarrow> bool" where
  "is_line_terminator c \<longleftrightarrow> c = CHR 0x0A \<or> c = CHR 0x0D"

definition js_trim :: "string \<Rightarrow> string" where
  "js_trim s = rev (dropWhile is_space (rev (dropWhile is_space s)))"

text \<open>\<^verbatim>\<open>s.substring(a, b)\<close>: both indices are clamped to the length and swapped when
  \<open>a > b\<close>.\<close>

definition js_substring :: "nat \<Rightarrow> nat \<Rightarrow> string \<Rightarrow> string" where
  "js_substring a b s =
     (let a' = min a (length s); b' = min b (length s);
          lo = min a' b'; hi = max a' b'
      in take (hi - lo) (drop lo s))"

text \<open>\<^verbatim>\<open>s.split(sep)\<close> for a one-character separator: always at least one piece.\<close>

fun js_split :: "char \<Rightarrow> string \<Rightarrow> string list" where
  "js_split sep [] = [[]]"
| "js_split sep (x # xs) =
     (let r = js_split sep xs
      in if x = sep then [] # r else (x # hd r) # tl r)"

section \<open>Regular expressions: a backtracking matcher\<close>

datatype cclass = Space | AnyChar | Dot

fun in_class :: "cclass \<Rightarrow> char \<Rightarrow> bool" where
  "in_class Space c = is_space c"
| "in_class AnyChar c = True"
| "in_class Dot c = (\<not> is_line_terminator c)"

text \<open>
  The pattern items the program's regular expressions are built from.  A pattern is a
  list of items matched in sequence: \<open>Lit\<close> a literal string, \<open>StarG\<close> a greedy and
  \<open>StarL\<close> a lazy repetition of a character class, \<open>GOpen\<close> and \<open>GClose\<close> the
  parentheses of capture group 1, \<open>Ahead\<close> a positive lookahead over alternatives,
  \<open>Eoi\<close> the \<^verbatim>\<open>$\<close> of a pattern without the \<^verbatim>\<open>m\<close> flag, \<open>Boi\<close> the \<^verbatim>\<open>^\<close> of such a
  pattern, \<open>Bol\<close> the \<^verbatim>\<open>^\<close> of a pattern with the \<^verbatim>\<open>m\<close> flag.
\<close>

datatype re =
    Lit string
  | StarG cclass
  | StarL cclass
  | GOpen
  | GClose
  | Ahead "re list list"
  | Eoi
  | Boi
  | Bol

text \<open>
  The matcher's state: the code unit before the current position (\<open>None\<close> at the start
  of the input), the input from the current position on, the input from where group 1
  opened, and what group 1 captured (\<open>None\<close> is JavaScript's \<^verbatim>\<open>undefined\<close>).
\<close>

record mstate =
  prev :: "char option"
  rest :: string
  gstart :: "string option"
  cap :: "string option"

definition advance :: "nat \<Rightarrow> mstate \<Rightarrow> mstate" where
  "advance n st =
     st\<lparr>prev := (if n = 0 then prev st else Some (rest st ! (n - 1))),
        rest := drop n (rest st)\<rparr>"

definition step1 :: "char \<Rightarrow> string \<Rightarrow> mstate \<Rightarrow> mstate" where
  "step1 x xs st = st\<lparr>prev := Some x, rest := xs\<rparr>"

definition close_group :: "mstate \<Rightarrow> mstate" where
  "close_group st =
     st\<lparr>cap := (case gstart st of
                   None \<Rightarrow> None
                 | Some g \<Rightarrow> Some (take (length g - length (rest st)) g))\<rparr>"

text \<open>
  \<open>ms rs st\<close> matches the items \<open>rs\<close> from state \<open>st\<close> and returns the state after the
  first match in backtracking order, the rest of the pattern being the continuation: a
  greedy star takes a code unit and falls back to taking none when the continuation
  fails; a lazy star tries the continuation first.  A lookahead is atomic and consumes
  nothing.
\<close>

function ms :: "re list \<Rightarrow> mstate \<Rightarrow> mstate option" where
  "ms [] st = Some st"
| "ms (Lit l # rs) st =
     (if take (length l) (rest st) = l then ms rs (advance (length l) st) else None)"
| "ms (StarG c # rs) st =
     (case rest st of
        [] \<Rightarrow> ms rs st
      | x # xs \<Rightarrow>
          if in_class c x
          then (case ms (StarG c # rs) (step1 x xs st) of
                  Some r \<Rightarrow> Some r
                | None \<Rightarrow> ms rs st)
          else ms rs st)"
| "ms (StarL c # rs) st =
     (case ms rs st of
        Some r \<Rightarrow> Some r
      | None \<Rightarrow>
          (case rest st of
             [] \<Rightarrow> None
           | x # xs \<Rightarrow> if in_class c x then ms (StarL c # rs) (step1 x xs st) else None))"
| "ms (GOpen # rs) st = ms rs (st\<lparr>gstart := Some (rest st)\<rparr>)"
| "ms (GClose # rs) st = ms rs (close_group st)"
| "ms (Ahead alts # rs) st =
     (if \<exists>a \<in> set alts. ms a st \<noteq> None then ms rs st else None)"
| "ms (Eoi # rs) st = (if rest st = [] then ms rs st else None)"
| "ms (Boi # rs) st = (if prev st = None then ms rs st else None)"
| "ms (Bol # rs) st =
     (case prev st of
        None \<Rightarrow> ms rs st
      | Some p \<Rightarrow> if is_line_terminator p then ms rs st else None)"
  by pat_completeness auto

termination
proof -
  have alt: "size_list size a < Suc (size_list (size_list size) alts)"
    if "a \<in> set alts" for a :: "re list" and alts
    using that by (induction alts) auto
  show ?thesis
    by (relation "measures [\<lambda>(rs, st). size_list size rs, \<lambda>(rs, st). length (rest st)]")
       (auto simp: step1_def dest: alt)
qed


section \<open>Matching a pattern against a string\<close>

text \<open>A match result: \<^verbatim>\<open>m.index\<close>, \<^verbatim>\<open>m[0]\<close> and \<^verbatim>\<open>m[1]\<close>.\<close>

record jsmatch =
  m_index :: nat
  m_text :: string
  m_group :: "string option"

text \<open>
  \<open>search re p s i\<close> is the regular expression's exec from the position \<open>i\<close> whose
  remaining input is \<open>s\<close>: the leftmost start position at which the pattern matches.
\<close>

fun search :: "re list \<Rightarrow> char option \<Rightarrow> string \<Rightarrow> nat \<Rightarrow> jsmatch option" where
  "search re p s i =
     (case ms re \<lparr>prev = p, rest = s, gstart = None, cap = None\<rparr> of
        Some st \<Rightarrow>
          Some \<lparr>m_index = i, m_text = take (length s - length (rest st)) s, m_group = cap st\<rparr>
      | None \<Rightarrow> (case s of [] \<Rightarrow> None | x # xs \<Rightarrow> search re (Some x) xs (Suc i)))"

text \<open>\<^verbatim>\<open>text.match(re)\<close> for a pattern without the \<^verbatim>\<open>g\<close> flag.\<close>

definition js_match :: "re list \<Rightarrow> string \<Rightarrow> jsmatch option" where
  "js_match re text = search re None text 0"

text \<open>
  \<^verbatim>\<open>[...text.matchAll(re)]\<close>: exec is repeated from the end of the previous match, one
  code unit further when that match was empty, until it fails.
\<close>

function match_all :: "re list \<Rightarrow> char option \<Rightarrow> string \<Rightarrow> nat \<Rightarrow> jsmatch list" where
  "match_all re p s i =
     (case search re p s i of
        None \<Rightarrow> []
      | Some m \<Rightarrow>
          (let e = m_index m - i + length (m_text m);
               e' = (if m_text m = [] then Suc e else e)
           in m # (if length s < e' then []
                   else match_all re (Some (s ! (e' - 1))) (drop e' s) (i + e'))))"
  by pat_completeness auto
termination
proof (relation "measure (\<lambda>(re, p, s, i). length s)")
  fix re :: "re list" and p :: "char option" and s :: string and i :: nat
    and m :: jsmatch and e e' :: nat
  assume e: "e = m_index m - i + length (m_text m)"
    and e': "e' = (if m_text m = [] then Suc e else e)"
    and le: "\<not> length s < e'"
  have "0 < e'"
    using e e' by (cases "m_text m") auto
  with le show "((re, Some (s ! (e' - 1)), drop e' s, i + e'), (re, p, s, i))
      \<in> measure (\<lambda>(re, p, s, i). length s)"
    by simp
qed simp

definition js_match_all :: "re list \<Rightarrow> string \<Rightarrow> jsmatch list" where
  "js_match_all re text = match_all re None text 0"

text \<open>\<^verbatim>\<open>s.replace(re, repl)\<close> for a pattern without the \<^verbatim>\<open>g\<close> flag and a replacement
  without \<^verbatim>\<open>$\<close>.\<close>

definition js_replace :: "re list \<Rightarrow> string \<Rightarrow> string \<Rightarrow> string" where
  "js_replace re repl s =
     (case js_match re s of
        None \<Rightarrow> s
      | Some m \<Rightarrow> take (m_index m) s @ repl @ drop (m_index m + length (m_text m)) s)"

section \<open>The analysis parser\<close>

record Recommendation =
  element :: string
  suggestion :: string
  reasoning :: string

record WebSource =
  uri :: string
  title :: string

record ListingAnalysis =
  overall_assessment :: string
  recommendations :: "Recommendation list"
  suggested_keywords :: "string list"
  sources :: "WebSource list option"

datatype js_error = TypeError

text \<open>\<^verbatim>\<open>/##\s*Overall Assessment\s*([\s\S]*?)(?=\n##|$)/\<close>\<close>

definition assessment_re :: "re list" where
  "assessment_re =
     [Lit ''##'', StarG Space, Lit ''Overall Assessment'', StarG Space,
      GOpen, StarL AnyChar, GClose, Ahead [[Lit ''\<newline>##''], [Eoi]]]"

text \<open>\<^verbatim>\<open>/##\s*Suggested SEO Tags \(13\)\s*([\s\S]*?)(?=\n##|$)/\<close>\<close>

definition tags_re :: "re list" where
  "tags_re =
     [Lit ''##'', StarG Space, Lit ''Suggested SEO Tags (13)'', StarG Space,
      GOpen, StarL AnyChar, GClose, Ahead [[Lit ''\<newline>##''], [Eoi]]]"

text \<open>\<^verbatim>\<open>/##\s*Actionable Recommendations\s*([\s\S]*?)(?=\n##\s*Suggested SEO Tags|$)/\<close>\<close>

definition recommendations_re :: "re list" where
  "recommendations_re =
     [Lit ''##'', StarG Space, Lit ''Actionable Recommendations'', StarG Space,
      GOpen, StarL AnyChar, GClose,
      Ahead [[Lit ''\<newline>##'', StarG Space, Lit ''Suggested SEO Tags''], [Eoi]]]"

text \<open>\<^verbatim>\<open>/^###\s*Element:\s*(.*)/gm\<close>\<close>

definition element_re :: "re list" where
  "element_re =
     [Bol, Lit ''###'', StarG Space, Lit ''Element:'', StarG Space, GOpen, StarG Dot, GClose]"

text \<open>\<^verbatim>\<open>/####\s*Suggestion:\s*([\s\S]*?)(?=\n####\s*Reasoning:|$)/\<close>\<close>

definition suggestion_re :: "re list" where
  "suggestion_re =
     [Lit ''####'', StarG Space, Lit ''Suggestion:'', StarG Space,
      GOpen, StarL AnyChar, GClose,
      Ahead [[Lit ''\<newline>####'', StarG Space, Lit ''Reasoning:''], [Eoi]]]"

text \<open>\<^verbatim>\<open>/####\s*Reasoning:\s*([\s\S]*)/\<close>\<close>

definition reasoning_re :: "re list" where
  "reasoning_re =
     [Lit ''####'', StarG Space, Lit ''Reasoning:'', StarG Space,
      GOpen, StarG AnyChar, GClose]"

text \<open>\<^verbatim>\<open>/^-/\<close>\<close>

definition dash_re :: "re list" where
  "dash_re = [Boi, Lit ''-'']"

text \<open>\<^verbatim>\<open>m[1].trim()\<close>: a TypeError when group 1 did not take part in the match.\<close>

definition group_trim :: "jsmatch \<Rightarrow> js_error + string" where
  "group_trim m = (case m_group m of None \<Rightarrow> Inl TypeError | Some g \<Rightarrow> Inr (js_trim g))"

text \<open>\<^verbatim>\<open>chunk.match(re)\<close> followed by \<^verbatim>\<open>m ? m[1].trim() : ''\<close>.\<close>

definition field_of :: "re list \<Rightarrow> string \<Rightarrow> js_error + string" where
  "field_of re chunk = (case js_match re chunk of None \<Rightarrow> Inr [] | Some m \<Rightarrow> group_trim m)"

definition parse_assessment :: "string \<Rightarrow> js_error + string" where
  "parse_assessment text = field_of assessment_re text"

definition clean_keyword :: "string \<Rightarrow> string" where
  "clean_keyword kw = js_trim (js_replace dash_re [] kw)"

definition keywords_of :: "string \<Rightarrow> string list" where
  "keywords_of g =
     map (\<lambda>kw. js_substring 0 20 kw)
       (filter (\<lambda>kw. kw \<noteq> []) (map clean_keyword (js_split CHR 0x0A g)))"

definition parse_keywords :: "string \<Rightarrow> js_error + string list" where
  "parse_keywords text =
     (case js_match tags_re text of
        None \<Rightarrow> Inr []
      | Some m \<Rightarrow> (case m_group m of None \<Rightarrow> Inl TypeError | Some g \<Rightarrow> Inr (keywords_of g)))"

text \<open>
  The body of the \<^verbatim>\<open>forEach\<close> over the element matches, \<open>next\<close> being
  \<^verbatim>\<open>elementMatches[index + 1]\<close>: the record to push, if any.
\<close>

definition element_record ::
  "string \<Rightarrow> jsmatch \<Rightarrow> jsmatch option \<Rightarrow> js_error + Recommendation option" where
  "element_record recommendationsText m nextMatch =
     (case group_trim m of
        Inl e \<Rightarrow> Inl e
      | Inr el \<Rightarrow>
          (let startIndex = m_index m + length (m_text m);
               endIndex = (case nextMatch of
                             Some n \<Rightarrow> m_index n
                           | None \<Rightarrow> length recommendationsText);
               chunk = js_substring startIndex endIndex recommendationsText
           in case field_of suggestion_re chunk of
                Inl e \<Rightarrow> Inl e
              | Inr su \<Rightarrow>
                  (case field_of reasoning_re chunk of
                     Inl e \<Rightarrow> Inl e
                   | Inr re \<Rightarrow>
                       if el \<noteq> [] \<and> (su \<noteq> [] \<or> re \<noteq> [])
                       then Inr (Some \<lparr>element = el, suggestion = su, reasoning = re\<rparr>)
                       else Inr None)))"

fun each_element :: "string \<Rightarrow> jsmatch list \<Rightarrow> js_error + Recommendation list" where
  "each_element t [] = Inr []"
| "each_element t (m # ms') =
     (case element_record t m (case ms' of [] \<Rightarrow> None | n # _ \<Rightarrow> Some n) of
        Inl e \<Rightarrow> Inl e
      | Inr r \<Rightarrow>
          (case each_element t ms' of
             Inl e \<Rightarrow> Inl e
           | Inr rs \<Rightarrow> Inr ((case r of None \<Rightarrow> [] | Some x \<Rightarrow> [x]) @ rs)))"

definition parse_recommendations :: "string \<Rightarrow> js_error + Recommendation list" where
  "parse_recommendations text =
     (case js_match recommendations_re text of
        None \<Rightarrow> Inr []
      | Some m \<Rightarrow>
          (case m_group m of
             None \<Rightarrow> Inl TypeError
           | Some recommendationsText \<Rightarrow>
               each_element recommendationsText (js_match_all element_re recommendationsText)))"

definition parseAnalysisFromText :: "string \<Rightarrow> js_error + ListingAnalysis" where
  "parseAnalysisFromText text =
     (case parse_assessment text of
        Inl e \<Rightarrow> Inl e
      | Inr a \<Rightarrow>
          (case parse_keywords text of
             Inl e \<Rightarrow> Inl e
           | Inr ks \<Rightarrow>
               (case parse_recommendations text of
                  Inl e \<Rightarrow> Inl e
                | Inr rs \<Rightarrow>
                    Inr \<lparr>overall_assessment = a, recommendations = rs,
                         suggested_keywords = ks, sources = None\<rparr>)))"

section \<open>Sections of a document, in terms of lists\<close>

text \<open>
  What the parser's patterns compute, written without the matcher.
  \<open>take_until Q s\<close> is the shortest prefix of \<open>s\<close> after which the remaining input
  satisfies \<open>Q\<close>, or all of \<open>s\<close>: what a lazy \<^verbatim>\<open>[\s\S]*?\<close> before a lookahead for
  \<open>Q\<close> or the end of the input consumes.
\<close>

fun take_until :: "(string \<Rightarrow> bool) \<Rightarrow> string \<Rightarrow> string" where
  "take_until Q [] = []"
| "take_until Q (x # xs) = (if Q (x # xs) then [] else x # take_until Q xs)"

text \<open>
  \<open>hdr_at mark h s\<close>: \<open>s\<close> starts with \<open>mark\<close>, then white space, then the label \<open>h\<close>;
  the result is what follows the label.  \<open>find_hdr\<close> looks for the leftmost position
  where that holds and returns the position as well.
\<close>

definition hdr_at :: "string \<Rightarrow> string \<Rightarrow> string \<Rightarrow> string option" where
  "hdr_at mark h s =
     (if take (length mark) s = mark
      then (let r = dropWhile is_space (drop (length mark) s)
            in if take (length h) r = h then Some (drop (length h) r) else None)
      else None)"

fun find_hdr :: "string \<Rightarrow> string \<Rightarrow> string \<Rightarrow> (nat \<times> string) option" where
  "find_hdr mark h [] = map_option (Pair 0) (hdr_at mark h [])"
| "find_hdr mark h (x # xs) =
     (case hdr_at mark h (x # xs) of
        Some r \<Rightarrow> Some (0, r)
      | None \<Rightarrow> map_option (\<lambda>(i, r). (Suc i, r)) (find_hdr mark h xs))"

text \<open>The three places where a captured section stops: before a line that begins with
  \<^verbatim>\<open>##\<close>, before the tags header, before the reasoning field.\<close>

definition next_hdr :: "string \<Rightarrow> bool" where
  "next_hdr s \<longleftrightarrow> take 3 s = ''\<newline>##''"

definition tags_hdr :: "string \<Rightarrow> bool" where
  "tags_hdr s \<longleftrightarrow> hdr_at ''\<newline>##'' ''Suggested SEO Tags'' s \<noteq> None"

definition reasoning_hdr :: "string \<Rightarrow> bool" where
  "reasoning_hdr s \<longleftrightarrow> hdr_at ''\<newline>####'' ''Reasoning:'' s \<noteq> None"

text \<open>\<open>contains h t\<close>: the string \<open>h\<close> occurs in \<open>t\<close>.\<close>

fun contains :: "string \<Rightarrow> string \<Rightarrow> bool" where
  "contains h [] = (h = [])"
| "contains h (x # xs) = (take (length h) (x # xs) = h \<or> contains h xs)"

text \<open>Removing a bullet marker that is the first character of a line.\<close>

definition strip_dash :: "string \<Rightarrow> string" where
  "strip_dash l = (case l of [] \<Rightarrow> [] | c # r \<Rightarrow> if c = CHR ''-'' then r else c # r)"

text \<open>The two shapes the parser's patterns have.\<close>

definition section_re :: "string \<Rightarrow> string \<Rightarrow> re list list \<Rightarrow> re list" where
  "section_re mark h alts =
     [Lit mark, StarG Space, Lit h, StarG Space, GOpen, StarL AnyChar, GClose, Ahead alts]"

definition grp_re :: "string \<Rightarrow> string \<Rightarrow> cclass \<Rightarrow> re list" where
  "grp_re mark h c = [Lit mark, StarG Space, Lit h, StarG Space, GOpen, StarG c, GClose]"

section \<open>The specification's wording, as definitions\<close>

text \<open>
  The overall assessment as the specification words it: the trimmed text after the
  header up to the next top-level header, a line that begins with exactly two \<^verbatim>\<open>#\<close>.
\<close>

definition top_level_header :: "string \<Rightarrow> bool" where
  "top_level_header s \<longleftrightarrow> take 3 s = ''\<newline>##'' \<and> take 4 s \<noteq> ''\<newline>###''"

definition spec_overall_assessment :: "string \<Rightarrow> string" where
  "spec_overall_assessment text =
     (case find_hdr ''##'' ''Overall Assessment'' text of
        None \<Rightarrow> []
      | Some (k, post) \<Rightarrow> js_trim (take_until top_level_header post))"

text \<open>
  The recommendations as the specification words them: the section runs from the
  recommendations header to the tags header or the end of the text; every line of it
  that matches \<^verbatim>\<open>### Element: <name>\<close> starts a record, named by the rest of that line;
  the record's body is the lines up to the next such line; the suggestion runs from
  \<^verbatim>\<open>#### Suggestion:\<close> to the reasoning field or the end of the body, the reasoning from
  \<^verbatim>\<open>#### Reasoning:\<close> to the end of the body; a record is kept when its name and one of
  the two fields are not empty.
\<close>

definition is_element_line :: "string \<Rightarrow> bool" where
  "is_element_line l \<longleftrightarrow> hdr_at ''###'' ''Element:'' l \<noteq> None"

definition element_name :: "string \<Rightarrow> string" where
  "element_name l = (case hdr_at ''###'' ''Element:'' l of None \<Rightarrow> [] | Some r \<Rightarrow> js_trim r)"

fun join_lines :: "string list \<Rightarrow> string" where
  "join_lines [] = []"
| "join_lines [l] = l"
| "join_lines (l # ls) = l @ CHR 0x0A # join_lines ls"

fun ref_blocks :: "string list \<Rightarrow> (string \<times> string) list" where
  "ref_blocks [] = []"
| "ref_blocks (l # ls) =
     (if is_element_line l
      then [(element_name l, join_lines (takeWhile (\<lambda>x. \<not> is_element_line x) ls))]
      else []) @ ref_blocks ls"

definition ref_suggestion :: "string \<Rightarrow> string" where
  "ref_suggestion b =
     (case find_hdr ''####'' ''Suggestion:'' b of
        None \<Rightarrow> []
      | Some (k, post) \<Rightarrow> js_trim (take_until reasoning_hdr post))"

definition ref_reasoning :: "string \<Rightarrow> string" where
  "ref_reasoning b =
     (case find_hdr ''####'' ''Reasoning:'' b of
        None \<Rightarrow> []
      | Some (k, post) \<Rightarrow> js_trim post)"

definition ref_record :: "string \<times> string \<Rightarrow> Recommendation" where
  "ref_record nb =
     \<lparr>element = fst nb, suggestion = ref_suggestion (snd nb), reasoning = ref_reasoning (snd nb)\<rparr>"

definition ref_keep :: "Recommendation \<Rightarrow> bool" where
  "ref_keep r \<longleftrightarrow> element r \<noteq> [] \<and> (suggestion r \<noteq> [] \<or> reasoning r \<noteq> [])"

definition ref_recommendations :: "string \<Rightarrow> Recommendation list" where
  "ref_recommendations text =
     (case find_hdr ''##'' ''Actionable Recommendations'' text of
        None \<Rightarrow> []
      | Some (k, post) \<Rightarrow>
          filter ref_keep (map ref_record (ref_blocks (js_split CHR 0x0A (take_until tags_hdr post)))))"

section \<open>The response cache\<close>

text \<open>
  The class \<^verbatim>\<open>APICache\<close>.  Its \<^verbatim>\<open>Map\<close> is an association list in insertion order with
  one entry for a key: \<^verbatim>\<open>Map.set\<close> is \<open>AList.update\<close> (in place for a key that is
  there, at the end otherwise) and \<^verbatim>\<open>Map.delete\<close> is \<open>AList.delete\<close>.  Time is in
  milliseconds; every reading of \<^verbatim>\<open>Date.now()\<close> is an argument, and \<^verbatim>\<open>set\<close> reads the
  clock twice.  A time-to-live of \<open>None\<close> is the omitted argument.
\<close>

record 'a CacheEntry =
  data :: 'a
  timestamp :: int
  expiry :: int

type_synonym 'a APICache = "(string \<times> 'a CacheEntry) list"

definition DEFAULT_TTL :: int where
  "DEFAULT_TTL = 5 * 60 * 1000"

definition cache_set ::
  "string \<Rightarrow> 'a \<Rightarrow> int option \<Rightarrow> int \<Rightarrow> int \<Rightarrow> 'a APICache \<Rightarrow> 'a APICache" where
  "cache_set key d ttl now1 now2 c =
     AList.update key
       \<lparr>data = d, timestamp = now1,
        expiry = now2 + (case ttl of None \<Rightarrow> DEFAULT_TTL | Some t \<Rightarrow> t)\<rparr> c"

definition cache_get :: "string \<Rightarrow> int \<Rightarrow> 'a APICache \<Rightarrow> 'a option \<times> 'a APICache" where
  "cache_get key now c =
     (case map_of c key of
        None \<Rightarrow> (None, c)
      | Some entry \<Rightarrow>
          if now > expiry entry then (None, AList.delete key c) else (Some (data entry), c))"

definition cache_clear :: "'a APICache \<Rightarrow> 'a APICache" where
  "cache_clear c = []"

text \<open>The loop of \<^verbatim>\<open>cleanup\<close> visits the entries the map had when the loop began and
  deletes from the map the key of each entry it finds expired.\<close>

definition cleanup :: "int \<Rightarrow> 'a APICache \<Rightarrow> 'a APICache" where
  "cleanup now c =
     fold (\<lambda>(key, entry) m. if now > expiry entry then AList.delete key m else m) c c"

section \<open>The request queue\<close>

text \<open>
  The class \<^verbatim>\<open>RequestQueue\<close> as a state machine.  A task is named by the number of
  the \<^verbatim>\<open>add\<close> call that submitted it.  Beside the two fields of the class, \<open>queue\<close> and
  \<open>activeRequests\<close>, the state records what the environment can observe: the tasks
  whose function has been called and has not settled (\<open>running\<close>), the order in which
  tasks were started (\<open>started\<close>), the number of calls of \<^verbatim>\<open>add\<close> (\<open>added\<close>), how the
  promises returned by \<^verbatim>\<open>add\<close> were settled (\<open>promises\<close>) and how the tasks' own promises
  were settled (\<open>settled\<close>).
\<close>

datatype ('v, 'e) outcome = Resolved 'v | Rejected 'e

record ('v, 'e) RequestQueue =
  queue :: "nat list"
  activeRequests :: nat
  running :: "nat list"
  started :: "nat list"
  added :: nat
  promises :: "nat \<rightharpoonup> ('v, 'e) outcome"
  settled :: "nat \<rightharpoonup> ('v, 'e) outcome"

definition maxConcurrent :: nat where
  "maxConcurrent = 3"

definition empty_queue :: "('v, 'e) RequestQueue" where
  "empty_queue =
     \<lparr>queue = [], activeRequests = 0, running = [], started = [], added = 0,
      promises = Map.empty, settled = Map.empty\<rparr>"

text \<open>\<^verbatim>\<open>processQueue\<close> up to its \<^verbatim>\<open>await\<close>: the first pending task is taken from the
  queue, counted and called.\<close>

definition processQueue :: "('v, 'e) RequestQueue \<Rightarrow> ('v, 'e) RequestQueue" where
  "processQueue q =
     (if activeRequests q \<ge> maxConcurrent \<or> length (queue q) = 0 then q
      else (case queue q of
              [] \<Rightarrow> q
            | request # remaining \<Rightarrow>
                q\<lparr>queue := remaining,
                  activeRequests := activeRequests q + 1,
                  running := running q @ [request],
                  started := started q @ [request]\<rparr>))"

definition add :: "('v, 'e) RequestQueue \<Rightarrow> ('v, 'e) RequestQueue" where
  "add q = processQueue (q\<lparr>queue := queue q @ [added q], added := Suc (added q)\<rparr>)"

text \<open>The function that \<^verbatim>\<open>add\<close> pushes: it awaits the task and passes the value it
  resolved with to \<^verbatim>\<open>resolve\<close>, the reason it was rejected with to \<^verbatim>\<open>reject\<close>.\<close>

definition wrapper :: "('v, 'e) outcome \<Rightarrow> ('v, 'e) outcome" where
  "wrapper r = (case r of Resolved result \<Rightarrow> Resolved result | Rejected error \<Rightarrow> Rejected error)"

text \<open>The running task \<open>i\<close> settles with \<open>r\<close>: its wrapper settles the promise of
  \<^verbatim>\<open>add\<close>, and the \<^verbatim>\<open>finally\<close> block of \<^verbatim>\<open>processQueue\<close> counts the task out and calls
  \<^verbatim>\<open>processQueue\<close> again.  Only a task that has been called can settle: for any other
  number nothing happens.\<close>

definition complete ::
  "nat \<Rightarrow> ('v, 'e) outcome \<Rightarrow> ('v, 'e) RequestQueue \<Rightarrow> ('v, 'e) RequestQueue" where
  "complete i r q =
     (if i \<in> set (running q)
      then processQueue
             (q\<lparr>promises := (promises q)(i \<mapsto> wrapper r),
                settled := (settled q)(i \<mapsto> r),
                running := remove1 i (running q),
                activeRequests := activeRequests q - 1\<rparr>)
      else q)"

text \<open>The states that calls of \<^verbatim>\<open>add\<close> and completions of running tasks lead to.\<close>

inductive reachable :: "('v, 'e) RequestQueue \<Rightarrow> bool" where
  init: "reachable empty_queue"
| add: "reachable q \<Longrightarrow> reachable (add q)"
| complete: "reachable q \<Longrightarrow> i \<in> set (running q) \<Longrightarrow> reachable (complete i r q)"

definition queue_inv :: "('v, 'e) RequestQueue \<Rightarrow> bool" where
  "queue_inv q \<longleftrightarrow>
     activeRequests q = length (running q) \<and>
     activeRequests q \<le> maxConcurrent \<and>
     started q @ queue q = [0..<added q] \<and>
     (queue q \<noteq> [] \<longrightarrow> activeRequests q = maxConcurrent) \<and>
     set (running q) \<subseteq> set (started q) \<and>
     distinct (running q) \<and>
     promises q = settled q \<and>
     (\<forall>x. promises q x \<noteq> None \<longleftrightarrow> x \<in> set (started q) \<and> x \<notin> set (running q))"

section \<open>Network calls\<close>


datatype http_method = GET | POST | PUT | DELETE







text \<open>
  \<^verbatim>\<open>setTimeout\<close> keeps the delay of a timer in a signed 32-bit integer: a delay of 0, or
  one that does not fit, makes the timer fire at the first turn of the event loop,
  here after one millisecond (a browser takes a delay of \<open>2^32\<close> and more modulo
  \<open>2^32\<close> first; the model counts it with the delays that do not fit).
\<close>

definition TIMEOUT_MAX :: nat where
  "TIMEOUT_MAX = 2147483647"

definition timer_delay :: "nat \<Rightarrow> nat" where
  "timer_delay delay = (if 1 \<le> delay \<and> delay \<le> TIMEOUT_MAX then delay else 1)"



























section \<open>The matcher on the parser's patterns\<close>

lemma advance_0 [simp]: "advance 0 st = st"
  by (simp add: advance_def)

lemma rest_step1 [simp]: "rest (step1 x xs st) = xs"
  by (simp add: step1_def)

lemma advance_step1: "rest st = x # xs \<Longrightarrow> advance n (step1 x xs st) = advance (Suc n) st"
  by (cases n) (simp_all add: advance_def step1_def)

lemma rest_advance [simp]: "rest (advance n st) = drop n (rest st)"
  by (simp add: advance_def)

lemma gstart_advance [simp]: "gstart (advance n st) = gstart st"
  by (simp add: advance_def)

lemma cap_advance [simp]: "cap (advance n st) = cap st"
  by (simp add: advance_def)

lemma ms_StarG_Lit:
  assumes "l \<noteq> []" "\<not> in_class c (hd l)"
  shows "ms (StarG c # Lit l # rs) st =
         ms (Lit l # rs) (advance (length (takeWhile (in_class c) (rest st))) st)"
  using assms
proof (induction "rest st" arbitrary: st)
  case Nil
  then show ?case by simp
next
  case (Cons x xs)
  note r = Cons.hyps(2)[symmetric]
  show ?case
  proof (cases "in_class c x")
    case False
    with r show ?thesis by simp
  next
    case True
    have st1: "xs = rest (step1 x xs st)" by (simp add: step1_def)
    have ih: "ms (StarG c # Lit l # rs) (step1 x xs st) =
       ms (Lit l # rs) (advance (Suc (length (takeWhile (in_class c) xs))) st)"
      using Cons.hyps(1)[OF st1 Cons.prems]
      by (simp only: rest_step1 advance_step1[OF r])
    have fail: "ms (Lit l # rs) st = None"
    proof -
      from Cons.prems obtain a l' where l: "l = a # l'" by (cases l) auto
      with Cons.prems True have "a \<noteq> x" by auto
      with l r show ?thesis by simp
    qed
    show ?thesis
      using True r ih fail by (simp split: option.splits)
  qed
qed

lemma ms_StarG_always:
  assumes "\<And>st'. ms rs st' \<noteq> None"
  shows "ms (StarG c # rs) st = ms rs (advance (length (takeWhile (in_class c) (rest st))) st)"
proof (induction "rest st" arbitrary: st)
  case Nil
  then show ?case by simp
next
  case (Cons x xs)
  note r = Cons.hyps(2)[symmetric]
  show ?case
  proof (cases "in_class c x")
    case False
    with r show ?thesis by simp
  next
    case True
    have st1: "xs = rest (step1 x xs st)" by (simp add: step1_def)
    have ih: "ms (StarG c # rs) (step1 x xs st) =
       ms rs (advance (Suc (length (takeWhile (in_class c) xs))) st)"
      using Cons.hyps(1)[OF st1]
      by (simp only: rest_step1 advance_step1[OF r])
    obtain y where "ms rs (advance (Suc (length (takeWhile (in_class c) xs))) st) = Some y"
      using assms by blast
    then show ?thesis
      using True r ih by simp
  qed
qed

lemma ms_StarL_any:
  assumes "\<And>st'. (ms rs st' \<noteq> None) = Q (rest st')"
  shows "ms (StarL AnyChar # rs) st = ms rs (advance (length (take_until Q (rest st))) st)"
proof (induction "rest st" arbitrary: st)
  case Nil
  then show ?case by (simp split: option.splits)
next
  case (Cons x xs)
  note r = Cons.hyps(2)[symmetric]
  show ?case
  proof (cases "Q (x # xs)")
    case True
    then have "ms rs st \<noteq> None" using assms r by simp
    then show ?thesis using True r by (auto split: option.splits)
  next
    case False
    then have n: "ms rs st = None" using assms[of st] r by simp
    have st1: "xs = rest (step1 x xs st)" by (simp add: step1_def)
    have ih: "ms (StarL AnyChar # rs) (step1 x xs st) =
       ms rs (advance (Suc (length (take_until Q xs))) st)"
      using Cons.hyps(1)[OF st1]
      by (simp only: rest_step1 advance_step1[OF r])
    show ?thesis using False r n ih by simp
  qed
qed

lemma take_until_prefix: "take (length (take_until Q s)) s = take_until Q s"
  by (induction s) auto

lemma take_until_length: "length (take_until Q s) \<le> length s"
  by (induction s) auto

lemma take_until_stop: "Q [] \<Longrightarrow> Q (drop (length (take_until Q s)) s)"
  by (induction s) auto

lemma take_until_cong_nonempty: "(\<And>x xs. Q (x # xs) = Q' (x # xs)) \<Longrightarrow> take_until Q s = take_until Q' s"
  by (induction s) auto

lemma ms_close_ahead:
  "ms [GClose, Ahead alts] st =
     (if \<exists>a \<in> set alts. ms a (close_group st) \<noteq> None then Some (close_group st) else None)"
  by simp

lemma rest_close_group [simp]: "rest (close_group st) = rest st"
  by (simp add: close_group_def)

lemma ms_lazy_tail:
  assumes Q: "\<And>st'. (\<exists>a \<in> set alts. ms a st' \<noteq> None) = Q (rest st')" and Qe: "Q []"
  shows "ms [StarL AnyChar, GClose, Ahead alts] st =
         Some (close_group (advance (length (take_until Q (rest st))) st))"
proof -
  have tail: "\<And>st'. (ms [GClose, Ahead alts] st' \<noteq> None) = Q (rest st')"
    using Q by (simp add: ms_close_ahead del: ms.simps)
  have "ms [StarL AnyChar, GClose, Ahead alts] st =
        ms [GClose, Ahead alts] (advance (length (take_until Q (rest st))) st)"
    by (rule ms_StarL_any[OF tail])
  moreover have "Q (rest (close_group (advance (length (take_until Q (rest st))) st)))"
    using take_until_stop[of Q, OF Qe] by simp
  ultimately show ?thesis
    unfolding ms_close_ahead using Q by simp
qed

lemma rest_advance_takeWhile:
  "rest (advance (length (takeWhile P (rest st))) st) = dropWhile P (rest st)"
  by (simp add: dropWhile_eq_drop)

lemma in_class_Space: "in_class Space = is_space"
  by (rule ext) simp

lemma cap_close_group:
  "gstart st = Some g \<Longrightarrow> cap (close_group st) = Some (take (length g - length (rest st)) g)"
  by (simp add: close_group_def)

lemma ms_section_head:
  assumes h: "h \<noteq> []" "\<not> is_space (hd h)"
  shows "ms (Lit mark # StarG Space # Lit h # rs) st =
     (case hdr_at mark h (rest st) of
        None \<Rightarrow> None
      | Some post \<Rightarrow>
          ms rs (advance (length h)
                  (advance (length (takeWhile is_space (drop (length mark) (rest st))))
                    (advance (length mark) st))))"
proof -
  have c: "\<not> in_class Space (hd h)" using h by simp
  show ?thesis
    apply (subst ms.simps(2))
    apply (subst ms_StarG_Lit[OF h(1) c])
    apply (subst ms.simps(2))
    apply (simp add: hdr_at_def Let_def in_class_Space dropWhile_eq_drop del: ms.simps)
    done
qed

lemma rest_section_head:
  "hdr_at mark h s = Some post \<Longrightarrow> rest st = s \<Longrightarrow>
   rest (advance (length h)
          (advance (length (takeWhile is_space (drop (length mark) (rest st))))
            (advance (length mark) st))) = post"
  by (auto simp: hdr_at_def Let_def dropWhile_eq_drop split: if_splits)

lemma ms_section_tail:
  assumes Q: "\<And>st'. (\<exists>a \<in> set alts. ms a st' \<noteq> None) = Q (rest st')" and Qe: "Q []"
  shows "\<exists>st'. ms [StarG Space, GOpen, StarL AnyChar, GClose, Ahead alts] st = Some st' \<and>
           cap st' = Some (take_until Q (dropWhile is_space (rest st))) \<and>
           rest st' = drop (length (take_until Q (dropWhile is_space (rest st))))
                        (dropWhile is_space (rest st))"
proof -
  let ?b = "dropWhile is_space (rest st)"
  let ?s4 = "advance (length (takeWhile is_space (rest st))) st"
  let ?s5 = "?s4\<lparr>gstart := Some (rest ?s4)\<rparr>"
  have tot: "\<And>st'. ms [GOpen, StarL AnyChar, GClose, Ahead alts] st' \<noteq> None"
    using ms_lazy_tail[OF Q Qe] by (simp del: ms.simps(4,6,7))
  have r4: "rest ?s4 = ?b" by (rule rest_advance_takeWhile)
  have "ms [StarG Space, GOpen, StarL AnyChar, GClose, Ahead alts] st =
        ms [GOpen, StarL AnyChar, GClose, Ahead alts] ?s4"
    using ms_StarG_always[of "[GOpen, StarL AnyChar, GClose, Ahead alts]" Space st, OF tot]
    by (simp only: in_class_Space)
  also have "\<dots> = ms [StarL AnyChar, GClose, Ahead alts] ?s5"
    by (subst ms.simps(5)) (rule refl)
  also have "\<dots> = Some (close_group (advance (length (take_until Q (rest ?s5))) ?s5))"
    by (rule ms_lazy_tail[OF Q Qe])
  finally have m: "ms [StarG Space, GOpen, StarL AnyChar, GClose, Ahead alts] st =
      Some (close_group (advance (length (take_until Q (rest ?s5))) ?s5))" .
  have r5: "rest ?s5 = ?b" using r4 by simp
  have g5: "gstart (advance (length (take_until Q ?b)) ?s5) = Some ?b" using r4 by simp
  have "cap (close_group (advance (length (take_until Q ?b)) ?s5)) =
        Some (take (length ?b - length (rest (advance (length (take_until Q ?b)) ?s5))) ?b)"
    by (rule cap_close_group[OF g5])
  also have "\<dots> = Some (take_until Q ?b)"
    using take_until_length[of Q ?b] take_until_prefix[of Q ?b] r5 by (simp del: rest_advance_takeWhile)
  finally have c: "cap (close_group (advance (length (take_until Q ?b)) ?s5)) = Some (take_until Q ?b)" .
  have r: "rest (close_group (advance (length (take_until Q ?b)) ?s5)) = drop (length (take_until Q ?b)) ?b"
    using r5 by simp
  show ?thesis
    using m c r unfolding r5 by blast
qed

lemma ms_section:
  assumes h: "h \<noteq> []" "\<not> is_space (hd h)"
    and Q: "\<And>st'. (\<exists>a \<in> set alts. ms a st' \<noteq> None) = Q (rest st')" and Qe: "Q []"
  shows "hdr_at mark h (rest st) = None \<Longrightarrow> ms (section_re mark h alts) st = None"
    and "hdr_at mark h (rest st) = Some post \<Longrightarrow>
         \<exists>st'. ms (section_re mark h alts) st = Some st' \<and>
               cap st' = Some (take_until Q (dropWhile is_space post))"
proof -
  show "hdr_at mark h (rest st) = None \<Longrightarrow> ms (section_re mark h alts) st = None"
    unfolding section_re_def by (subst ms_section_head[OF h]) simp
next
  assume a: "hdr_at mark h (rest st) = Some post"
  let ?s3 = "advance (length h)
          (advance (length (takeWhile is_space (drop (length mark) (rest st))))
            (advance (length mark) st))"
  have r3: "rest ?s3 = post" by (rule rest_section_head[OF a refl])
  have "ms (section_re mark h alts) st =
        ms [StarG Space, GOpen, StarL AnyChar, GClose, Ahead alts] ?s3"
    unfolding section_re_def by (subst ms_section_head[OF h]) (simp add: a del: ms.simps)
  with ms_section_tail[OF Q Qe, of ?s3] r3
  show "\<exists>st'. ms (section_re mark h alts) st = Some st' \<and>
               cap st' = Some (take_until Q (dropWhile is_space post))"
    by auto
qed

lemma search_section:
  assumes h: "h \<noteq> []" "\<not> is_space (hd h)"
    and Q: "\<And>st'. (\<exists>a \<in> set alts. ms a st' \<noteq> None) = Q (rest st')" and Qe: "Q []"
  shows "find_hdr mark h s = None \<Longrightarrow> search (section_re mark h alts) p s i = None"
    and "find_hdr mark h s = Some (k, post) \<Longrightarrow>
         \<exists>m. search (section_re mark h alts) p s i = Some m \<and> m_index m = i + k \<and>
             m_group m = Some (take_until Q (dropWhile is_space post))"
proof (induction s arbitrary: p i k)
  case Nil
  {
    case 1
    then show ?case
      using ms_section(1)[OF h Q Qe, of mark "\<lparr>prev = p, rest = [], gstart = None, cap = None\<rparr>"]
      by (simp del: ms.simps split: option.splits)
  next
    case 2
    then show ?case
      using ms_section(2)[OF h Q Qe, of mark "\<lparr>prev = p, rest = [], gstart = None, cap = None\<rparr>" post]
      by (auto simp del: ms.simps split: option.splits)
  }
next
  case (Cons x xs)
  {
    case 1
    then have a: "hdr_at mark h (x # xs) = None" and b: "find_hdr mark h xs = None"
      by (auto split: option.splits)
    show ?case
      using ms_section(1)[OF h Q Qe, of mark "\<lparr>prev = p, rest = x # xs, gstart = None, cap = None\<rparr>"] a
        Cons.IH(1)[OF b]
      by (simp del: ms.simps)
  next
    case 2
    show ?case
    proof (cases "hdr_at mark h (x # xs)")
      case None
      with 2 obtain k' where b: "find_hdr mark h xs = Some (k', post)" and k: "k = Suc k'"
        by (auto split: option.splits)
      show ?thesis
        using ms_section(1)[OF h Q Qe, of mark "\<lparr>prev = p, rest = x # xs, gstart = None, cap = None\<rparr>"] None
          Cons.IH(2)[OF b, of "Some x" "Suc i"] k
        by (simp del: ms.simps)
    next
      case (Some r)
      with 2 have k: "k = 0" and r: "r = post" by auto
      show ?thesis
        using ms_section(2)[OF h Q Qe, of mark "\<lparr>prev = p, rest = x # xs, gstart = None, cap = None\<rparr>" post]
          Some k r
        by (auto simp del: ms.simps)
    qed
  }
qed

lemma not_space_O: "\<not> is_space (hd ''Overall Assessment'')" "\<not> is_space (hd ''Suggested SEO Tags (13)'')"
  "\<not> is_space (hd ''Actionable Recommendations'')" "\<not> is_space (hd ''Suggested SEO Tags'')"
  "\<not> is_space (hd ''Reasoning:'')" "\<not> is_space (hd ''Suggestion:'')" "\<not> is_space (hd ''Element:'')"
  by (simp_all add: is_space_def)

lemma alts_plain:
  "(\<exists>a \<in> set [[Lit ''\<newline>##''], [Eoi]]. ms a st \<noteq> None) = (next_hdr (rest st) \<or> rest st = [])"
  by (simp add: next_hdr_def eval_nat_numeral)

lemma ms_lit_star_lit:
  assumes h: "h \<noteq> []" "\<not> is_space (hd h)"
  shows "(ms [Lit mark, StarG Space, Lit h] st \<noteq> None) = (hdr_at mark h (rest st) \<noteq> None)"
  by (subst ms_section_head[OF h]) (simp split: option.splits)

lemma alts_tags:
  "(\<exists>a \<in> set [[Lit ''\<newline>##'', StarG Space, Lit ''Suggested SEO Tags''], [Eoi]]. ms a st \<noteq> None)
     = (tags_hdr (rest st) \<or> rest st = [])"
proof -
  have "(ms [Eoi] st \<noteq> None) = (rest st = [])" by simp
  then show ?thesis
    using ms_lit_star_lit[of "''Suggested SEO Tags''" "''\<newline>##''" st] not_space_O
    by (simp add: tags_hdr_def del: ms.simps not_None_eq)
qed

lemma alts_reasoning:
  "(\<exists>a \<in> set [[Lit ''\<newline>####'', StarG Space, Lit ''Reasoning:''], [Eoi]]. ms a st \<noteq> None)
     = (reasoning_hdr (rest st) \<or> rest st = [])"
proof -
  have "(ms [Eoi] st \<noteq> None) = (rest st = [])" by simp
  then show ?thesis
    using ms_lit_star_lit[of "''Reasoning:''" "''\<newline>####''" st] not_space_O
    by (simp add: reasoning_hdr_def del: ms.simps not_None_eq)
qed

lemma take_until_or_empty: "take_until (\<lambda>s. Q s \<or> s = []) s = take_until Q s"
  by (rule take_until_cong_nonempty) simp

lemma js_match_section:
  assumes re: "re = section_re mark h alts"
    and h: "h \<noteq> []" "\<not> is_space (hd h)"
    and Q: "\<And>st'. (\<exists>a \<in> set alts. ms a st' \<noteq> None) = (Q (rest st') \<or> rest st' = [])"
  shows "find_hdr mark h text = None \<Longrightarrow> js_match re text = None"
    and "find_hdr mark h text = Some (k, post) \<Longrightarrow>
         \<exists>m. js_match re text = Some m \<and> m_index m = k \<and>
             m_group m = Some (take_until Q (dropWhile is_space post))"
proof -
  have Q': "\<And>st'. (\<exists>a \<in> set alts. ms a st' \<noteq> None) = (\<lambda>s. Q s \<or> s = []) (rest st')"
    using Q by simp
  have Qe: "(\<lambda>s. Q s \<or> s = []) []" by simp
  show "find_hdr mark h text = None \<Longrightarrow> js_match re text = None"
    unfolding js_match_def re
    by (rule search_section(1)[OF h Q' Qe])
  assume "find_hdr mark h text = Some (k, post)"
  from search_section(2)[OF h Q' Qe this, of None 0]
  show "\<exists>m. js_match re text = Some m \<and> m_index m = k \<and>
             m_group m = Some (take_until Q (dropWhile is_space post))"
    unfolding js_match_def re take_until_or_empty by simp
qed

lemma field_of_section:
  assumes re: "re = section_re mark h alts"
    and h: "h \<noteq> []" "\<not> is_space (hd h)"
    and Q: "\<And>st'. (\<exists>a \<in> set alts. ms a st' \<noteq> None) = (Q (rest st') \<or> rest st' = [])"
  shows "field_of re text =
     Inr (case find_hdr mark h text of
            None \<Rightarrow> []
          | Some (k, post) \<Rightarrow> js_trim (take_until Q (dropWhile is_space post)))"
proof (cases "find_hdr mark h text")
  case None
  with js_match_section(1)[OF re h Q] show ?thesis by (simp add: field_of_def)
next
  case (Some kp)
  obtain k post where kp: "kp = (k, post)" by (cases kp)
  from js_match_section(2)[OF re h Q, of "text" k post] Some kp
  show ?thesis by (auto simp: field_of_def group_trim_def)
qed

lemma assessment_re_section:
  "assessment_re = section_re ''##'' ''Overall Assessment'' [[Lit ''\<newline>##''], [Eoi]]"
  by (simp add: assessment_re_def section_re_def)

lemma tags_re_section:
  "tags_re = section_re ''##'' ''Suggested SEO Tags (13)'' [[Lit ''\<newline>##''], [Eoi]]"
  by (simp add: tags_re_def section_re_def)

lemma recommendations_re_section:
  "recommendations_re = section_re ''##'' ''Actionable Recommendations''
     [[Lit ''\<newline>##'', StarG Space, Lit ''Suggested SEO Tags''], [Eoi]]"
  by (simp add: recommendations_re_def section_re_def)

lemma suggestion_re_section:
  "suggestion_re = section_re ''####'' ''Suggestion:''
     [[Lit ''\<newline>####'', StarG Space, Lit ''Reasoning:''], [Eoi]]"
  by (simp add: suggestion_re_def section_re_def)

lemma parse_assessment_eq:
  "parse_assessment text =
     Inr (case find_hdr ''##'' ''Overall Assessment'' text of
            None \<Rightarrow> []
          | Some (k, post) \<Rightarrow> js_trim (take_until next_hdr (dropWhile is_space post)))"
  unfolding parse_assessment_def
  by (rule field_of_section[OF assessment_re_section _ not_space_O(1) alts_plain]) simp

lemma suggestion_eq:
  "field_of suggestion_re chunk =
     Inr (case find_hdr ''####'' ''Suggestion:'' chunk of
            None \<Rightarrow> []
          | Some (k, post) \<Rightarrow> js_trim (take_until reasoning_hdr (dropWhile is_space post)))"
  by (rule field_of_section[OF suggestion_re_section _ not_space_O(6) alts_reasoning]) simp

lemma js_substring_0: "js_substring 0 n s = take n s"
  by (simp add: js_substring_def Let_def min_def)

lemma search_Boi_Some: "search (Boi # rs) (Some c) s i = None"
  by (induction s arbitrary: c i) simp_all

lemma js_replace_dash: "js_replace dash_re [] kw = strip_dash kw"
proof (cases kw)
  case Nil
  then show ?thesis
    by (simp add: js_replace_def js_match_def dash_re_def strip_dash_def)
next
  case (Cons c r)
  show ?thesis
  proof (cases "c = CHR ''-''")
    case True
    with Cons show ?thesis
      by (simp add: js_replace_def js_match_def dash_re_def strip_dash_def advance_def)
  next
    case False
    with Cons show ?thesis
      unfolding js_replace_def js_match_def dash_re_def strip_dash_def
      by (subst search.simps) (simp add: search_Boi_Some del: search.simps)
  qed
qed

lemma keywords_of_eq:
  "keywords_of g =
     map (take 20) (filter (\<lambda>l. l \<noteq> []) (map (\<lambda>l. js_trim (strip_dash l)) (js_split CHR 0x0A g)))"
proof -
  have "clean_keyword = (\<lambda>l. js_trim (strip_dash l))"
    by (rule ext) (simp add: clean_keyword_def js_replace_dash)
  then show ?thesis
    by (simp add: keywords_of_def js_substring_0)
qed

lemma parse_keywords_eq:
  "parse_keywords text =
     Inr (case find_hdr ''##'' ''Suggested SEO Tags (13)'' text of
            None \<Rightarrow> []
          | Some (k, post) \<Rightarrow> keywords_of (take_until next_hdr (dropWhile is_space post)))"
proof (cases "find_hdr ''##'' ''Suggested SEO Tags (13)'' text")
  case None
  have "js_match tags_re text = None"
    by (rule js_match_section(1)[OF tags_re_section _ not_space_O(2) alts_plain None]) simp
  then show ?thesis using None
    by (simp add: parse_keywords_def)
next
  case (Some kp)
  obtain k post where kp: "kp = (k, post)" by (cases kp)
  have s: "find_hdr ''##'' ''Suggested SEO Tags (13)'' text = Some (k, post)"
    using Some kp by simp
  have "\<exists>m. js_match tags_re text = Some m \<and> m_index m = k \<and>
             m_group m = Some (take_until next_hdr (dropWhile is_space post))"
    by (rule js_match_section(2)[OF tags_re_section _ not_space_O(2) alts_plain s]) simp
  then show ?thesis using s
    by (auto simp: parse_keywords_def)
qed

lemma take_length_dropWhile: "take (length b - length (dropWhile P b)) b = takeWhile P b"
  by (induction b) (auto simp: Suc_diff_le length_dropWhile_le)

lemma ms_greedy_tail:
  "\<exists>st'. ms [StarG Space, GOpen, StarG c, GClose] st = Some st' \<and>
         cap st' = Some (takeWhile (in_class c) (dropWhile is_space (rest st)))"
proof -
  let ?b = "dropWhile is_space (rest st)"
  let ?s4 = "advance (length (takeWhile is_space (rest st))) st"
  let ?s5 = "?s4\<lparr>gstart := Some (rest ?s4)\<rparr>"
  let ?s6 = "advance (length (takeWhile (in_class c) (rest ?s5))) ?s5"
  have r4: "rest ?s4 = ?b" by (rule rest_advance_takeWhile)
  have r5: "rest ?s5 = ?b" using r4 by simp
  have t1: "\<And>st'. ms [GClose] st' \<noteq> None" by simp
  have g: "\<And>st'. ms [StarG c, GClose] st' =
      Some (close_group (advance (length (takeWhile (in_class c) (rest st'))) st'))"
    by (subst ms_StarG_always[OF t1]) simp
  have tot: "\<And>st'. ms [GOpen, StarG c, GClose] st' \<noteq> None"
    by (subst ms.simps(5)) (simp only: g, simp)
  have "ms [StarG Space, GOpen, StarG c, GClose] st = ms [GOpen, StarG c, GClose] ?s4"
    using ms_StarG_always[of "[GOpen, StarG c, GClose]" Space st, OF tot]
    by (simp only: in_class_Space)
  also have "\<dots> = ms [StarG c, GClose] ?s5"
    by (subst ms.simps(5)) (rule refl)
  also have "\<dots> = Some (close_group ?s6)"
    by (rule g)
  finally have m: "ms [StarG Space, GOpen, StarG c, GClose] st = Some (close_group ?s6)" .
  have g6: "gstart ?s6 = Some ?b" using r4 by simp
  have r6: "rest ?s6 = dropWhile (in_class c) ?b"
    unfolding r5[symmetric] by (rule rest_advance_takeWhile)
  have "cap (close_group ?s6) = Some (take (length ?b - length (rest ?s6)) ?b)"
    by (rule cap_close_group[OF g6])
  also have "\<dots> = Some (takeWhile (in_class c) ?b)"
    unfolding r6 by (simp only: take_length_dropWhile)
  finally show ?thesis using m by blast
qed

lemma ms_grp:
  assumes h: "h \<noteq> []" "\<not> is_space (hd h)"
  shows "hdr_at mark h (rest st) = None \<Longrightarrow> ms (grp_re mark h c) st = None"
    and "hdr_at mark h (rest st) = Some post \<Longrightarrow>
         \<exists>st'. ms (grp_re mark h c) st = Some st' \<and>
               cap st' = Some (takeWhile (in_class c) (dropWhile is_space post))"
proof -
  show "hdr_at mark h (rest st) = None \<Longrightarrow> ms (grp_re mark h c) st = None"
    unfolding grp_re_def by (subst ms_section_head[OF h]) simp
next
  assume a: "hdr_at mark h (rest st) = Some post"
  let ?s3 = "advance (length h)
          (advance (length (takeWhile is_space (drop (length mark) (rest st))))
            (advance (length mark) st))"
  have r3: "rest ?s3 = post" by (rule rest_section_head[OF a refl])
  have "ms (grp_re mark h c) st = ms [StarG Space, GOpen, StarG c, GClose] ?s3"
    unfolding grp_re_def by (subst ms_section_head[OF h]) (simp add: a del: ms.simps)
  with ms_greedy_tail[of c ?s3] r3
  show "\<exists>st'. ms (grp_re mark h c) st = Some st' \<and>
               cap st' = Some (takeWhile (in_class c) (dropWhile is_space post))"
    by auto
qed

lemma search_hdr:
  assumes N: "\<And>st. hdr_at mark h (rest st) = None \<Longrightarrow> ms re st = None"
    and S: "\<And>st post. hdr_at mark h (rest st) = Some post \<Longrightarrow>
              \<exists>st'. ms re st = Some st' \<and> cap st' = Some (F post)"
  shows "find_hdr mark h s = None \<Longrightarrow> search re p s i = None"
    and "find_hdr mark h s = Some (k, post) \<Longrightarrow>
         \<exists>m. search re p s i = Some m \<and> m_index m = i + k \<and> m_group m = Some (F post)"
proof (induction s arbitrary: p i k)
  case Nil
  {
    case 1
    then show ?case
      using N[of "\<lparr>prev = p, rest = [], gstart = None, cap = None\<rparr>"]
      by (simp del: ms.simps split: option.splits)
  next
    case 2
    then show ?case
      using S[of "\<lparr>prev = p, rest = [], gstart = None, cap = None\<rparr>" post]
      by (auto simp del: ms.simps split: option.splits)
  }
next
  case (Cons x xs)
  {
    case 1
    then have a: "hdr_at mark h (x # xs) = None" and b: "find_hdr mark h xs = None"
      by (auto split: option.splits)
    show ?case
      using N[of "\<lparr>prev = p, rest = x # xs, gstart = None, cap = None\<rparr>"] a Cons.IH(1)[OF b]
      by (simp del: ms.simps)
  next
    case 2
    show ?case
    proof (cases "hdr_at mark h (x # xs)")
      case None
      with 2 obtain k' where b: "find_hdr mark h xs = Some (k', post)" and k: "k = Suc k'"
        by (auto split: option.splits)
      show ?thesis
        using N[of "\<lparr>prev = p, rest = x # xs, gstart = None, cap = None\<rparr>"] None
          Cons.IH(2)[OF b, of "Some x" "Suc i"] k
        by (simp del: ms.simps)
    next
      case (Some r)
      with 2 have k: "k = 0" and r: "r = post" by auto
      show ?thesis
        using S[of "\<lparr>prev = p, rest = x # xs, gstart = None, cap = None\<rparr>" post] Some k r
        by (auto simp del: ms.simps)
    qed
  }
qed

lemma in_class_Any: "in_class AnyChar = (\<lambda>_. True)"
  by (rule ext) simp

lemma takeWhile_True: "takeWhile (\<lambda>_. True) xs = xs"
  by (induction xs) auto

lemma reasoning_re_grp: "reasoning_re = grp_re ''####'' ''Reasoning:'' AnyChar"
  by (simp add: reasoning_re_def grp_re_def)

lemma element_re_grp: "element_re = Bol # grp_re ''###'' ''Element:'' Dot"
  by (simp add: element_re_def grp_re_def)

lemma reasoning_eq:
  "field_of reasoning_re chunk =
     Inr (case find_hdr ''####'' ''Reasoning:'' chunk of
            None \<Rightarrow> []
          | Some (k, post) \<Rightarrow> js_trim (dropWhile is_space post))"
proof -
  have h: "''Reasoning:'' \<noteq> []" by simp
  note N = ms_grp(1)[OF h not_space_O(5), of "''####''" _ AnyChar]
  have S: "\<And>st post. hdr_at ''####'' ''Reasoning:'' (rest st) = Some post \<Longrightarrow>
      \<exists>st'. ms (grp_re ''####'' ''Reasoning:'' AnyChar) st = Some st' \<and>
            cap st' = Some (dropWhile is_space post)"
  proof -
    fix st :: mstate and post
    assume "hdr_at ''####'' ''Reasoning:'' (rest st) = Some post"
    from ms_grp(2)[OF h not_space_O(5) this, of AnyChar]
    show "\<exists>st'. ms (grp_re ''####'' ''Reasoning:'' AnyChar) st = Some st' \<and>
            cap st' = Some (dropWhile is_space post)"
      by (simp add: in_class_Any takeWhile_True del: ms.simps)
  qed
  show ?thesis
  proof (cases "find_hdr ''####'' ''Reasoning:'' chunk")
    case None
    from search_hdr(1)[of "''####''" "''Reasoning:''" "grp_re ''####'' ''Reasoning:'' AnyChar",
        OF N S None]
    show ?thesis using None
      by (simp add: field_of_def js_match_def reasoning_re_grp del: search.simps)
  next
    case (Some kp)
    obtain k post where kp: "kp = (k, post)" by (cases kp)
    have s: "find_hdr ''####'' ''Reasoning:'' chunk = Some (k, post)" using Some kp by simp
    from search_hdr(2)[where F = "dropWhile is_space" and p = None and i = 0, OF N S s]
    show ?thesis using s
      by (auto simp add: field_of_def js_match_def reasoning_re_grp group_trim_def simp del: search.simps)
  qed
qed

lemma ms_element_cap: "ms element_re st = Some st' \<Longrightarrow> cap st' \<noteq> None"
proof -
  assume a: "ms element_re st = Some st'"
  have h: "''Element:'' \<noteq> []" by simp
  from a have b: "ms (grp_re ''###'' ''Element:'' Dot) st = Some st'"
    unfolding element_re_grp by (subst (asm) ms.simps(10)) (simp split: option.splits if_splits del: ms.simps)
  show ?thesis
  proof (cases "hdr_at ''###'' ''Element:'' (rest st)")
    case None
    from ms_grp(1)[OF h not_space_O(7) None] b show ?thesis by simp
  next
    case (Some post)
    from ms_grp(2)[OF h not_space_O(7) Some, of Dot] b show ?thesis by auto
  qed
qed

lemma search_cap:
  assumes "\<forall>st st'. ms re st = Some st' \<longrightarrow> cap st' \<noteq> None"
  shows "search re p s i = Some m \<Longrightarrow> m_group m \<noteq> None"
proof (induction s arbitrary: p i)
  case Nil
  then show ?case using assms by (auto simp del: ms.simps split: option.splits)
next
  case (Cons x xs)
  then show ?case
    using assms
    by (cases "ms re \<lparr>prev = p, rest = x # xs, gstart = None, cap = None\<rparr>")
       (auto simp del: ms.simps)
qed

lemma match_all_cap:
  "\<forall>st st'. ms re st = Some st' \<longrightarrow> cap st' \<noteq> None \<Longrightarrow>
   \<forall>m \<in> set (match_all re p s i). m_group m \<noteq> None"
proof (induction re p s i rule: match_all.induct)
  case (1 re p s i)
  show ?case
  proof (cases "search re p s i")
    case None
    then show ?thesis by (subst match_all.simps) simp
  next
    case (Some m)
    have g: "m_group m \<noteq> None"
      by (rule search_cap[OF "1.prems" Some])
    show ?thesis
      apply (subst match_all.simps)
      using Some g "1.IH"[OF Some refl refl _ "1.prems"]
      apply (simp add: Let_def del: match_all.simps search.simps)
      done
  qed
qed

lemma element_record_ok:
  "m_group m \<noteq> None \<Longrightarrow> \<exists>r. element_record t m nx = Inr r"
  by (auto simp: element_record_def group_trim_def suggestion_eq reasoning_eq Let_def)

lemma each_element_ok:
  "\<forall>m \<in> set ms'. m_group m \<noteq> None \<Longrightarrow> \<exists>rs. each_element t ms' = Inr rs"
proof (induction ms')
  case Nil
  then show ?case by simp
next
  case (Cons m ms')
  then obtain rs where rs: "each_element t ms' = Inr rs" by auto
  from Cons.prems obtain r where
    "element_record t m (case ms' of [] \<Rightarrow> None | n # _ \<Rightarrow> Some n) = Inr r"
    using element_record_ok[of m t] by auto
  with rs show ?case by simp
qed

lemma parse_recommendations_ok: "\<exists>rs. parse_recommendations text = Inr rs"
proof (cases "find_hdr ''##'' ''Actionable Recommendations'' text")
  case None
  have "js_match recommendations_re text = None"
    by (rule js_match_section(1)[OF recommendations_re_section _ not_space_O(3) alts_tags None]) simp
  then show ?thesis by (simp add: parse_recommendations_def)
next
  case (Some kp)
  obtain k post where kp: "kp = (k, post)" by (cases kp)
  have s: "find_hdr ''##'' ''Actionable Recommendations'' text = Some (k, post)"
    using Some kp by simp
  have "\<exists>m. js_match recommendations_re text = Some m \<and> m_index m = k \<and>
             m_group m = Some (take_until tags_hdr (dropWhile is_space post))"
    by (rule js_match_section(2)[OF recommendations_re_section _ not_space_O(3) alts_tags s]) simp
  then obtain m where m: "js_match recommendations_re text = Some m"
    and g: "m_group m = Some (take_until tags_hdr (dropWhile is_space post))" by blast
  have "\<forall>m \<in> set (match_all element_re None (take_until tags_hdr (dropWhile is_space post)) 0).
          m_group m \<noteq> None"
    by (rule match_all_cap) (blast dest: ms_element_cap)
  from each_element_ok[OF this]
  show ?thesis using m g
    by (simp add: parse_recommendations_def js_match_all_def del: match_all.simps)
qed

lemma parse_recommendations_absent:
  "find_hdr ''##'' ''Actionable Recommendations'' text = None \<Longrightarrow> parse_recommendations text = Inr []"
proof -
  assume None: "find_hdr ''##'' ''Actionable Recommendations'' text = None"
  have "js_match recommendations_re text = None"
    by (rule js_match_section(1)[OF recommendations_re_section _ not_space_O(3) alts_tags None]) simp
  then show ?thesis by (simp add: parse_recommendations_def)
qed

lemma contains_here: "contains h (h @ post)"
proof (cases "h @ post")
  case Nil
  then show ?thesis by simp
next
  case (Cons a list)
  have "take (length h) (h @ post) = h" by simp
  then show ?thesis unfolding Cons by simp
qed

lemma contains_append: "contains h (pre @ h @ post)"
  by (induction pre) (auto simp: contains_here)

lemma contains_iff: "contains h t \<longleftrightarrow> (\<exists>pre post. t = pre @ h @ post)"
proof
  show "contains h t \<Longrightarrow> \<exists>pre post. t = pre @ h @ post"
  proof (induction t)
    case Nil
    then show ?case by simp
  next
    case (Cons x xs)
    show ?case
    proof (cases "take (length h) (x # xs) = h")
      case True
      then have "x # xs = [] @ h @ drop (length h) (x # xs)"
        by (metis append_Nil append_take_drop_id)
      then show ?thesis by blast
    next
      case False
      with Cons obtain pre post where "xs = pre @ h @ post" by auto
      then have "x # xs = (x # pre) @ h @ post" by simp
      then show ?thesis by blast
    qed
  qed
  show "\<exists>pre post. t = pre @ h @ post \<Longrightarrow> contains h t"
    using contains_append by auto
qed

lemma hdr_at_iff:
  assumes h: "h \<noteq> []" "\<not> is_space (hd h)"
  shows "hdr_at mark h s = Some post \<longleftrightarrow>
         (\<exists>ws. s = mark @ ws @ h @ post \<and> list_all is_space ws)"
proof
  assume a: "hdr_at mark h s = Some post"
  let ?r = "drop (length mark) s"
  from a have m: "take (length mark) s = mark"
    and t: "take (length h) (dropWhile is_space ?r) = h"
    and p: "post = drop (length h) (dropWhile is_space ?r)"
    by (auto simp: hdr_at_def Let_def split: if_splits)
  have "s = take (length mark) s @ ?r" by simp
  also have "?r = takeWhile is_space ?r @ dropWhile is_space ?r" by simp
  also have "dropWhile is_space ?r = h @ post"
    using t p by (metis append_take_drop_id)
  finally have "s = mark @ takeWhile is_space ?r @ h @ post" using m by simp
  moreover have "list_all is_space (takeWhile is_space ?r)"
    by (simp add: list_all_iff) (meson set_takeWhileD)
  ultimately show "\<exists>ws. s = mark @ ws @ h @ post \<and> list_all is_space ws" by blast
next
  assume "\<exists>ws. s = mark @ ws @ h @ post \<and> list_all is_space ws"
  then obtain ws where s: "s = mark @ ws @ h @ post" and ws: "list_all is_space ws" by blast
  from h obtain a h' where hh: "h = a # h'" and a: "\<not> is_space a" by (cases h) auto
  have "dropWhile is_space (ws @ h @ post) = h @ post"
    using ws a hh by (simp add: list_all_iff dropWhile_append2)
  then show "hdr_at mark h s = Some post"
    by (simp add: hdr_at_def s)
qed

lemma hdr_at_contains:
  assumes "hdr_at mark h s = Some post"
  shows "contains h s"
proof -
  let ?r = "drop (length mark) s"
  from assms have t: "take (length h) (dropWhile is_space ?r) = h"
    by (auto simp: hdr_at_def Let_def split: if_splits)
  have "s = take (length mark) s @ takeWhile is_space ?r @ dropWhile is_space ?r" by simp
  also have "dropWhile is_space ?r = h @ drop (length h) (dropWhile is_space ?r)"
    using t by (metis append_take_drop_id)
  finally have "s = (take (length mark) s @ takeWhile is_space ?r) @ h @
      drop (length h) (dropWhile is_space ?r)" by simp
  then show ?thesis using contains_append by metis
qed

lemma find_hdr_contains: "find_hdr mark h t = Some kp \<Longrightarrow> contains h t"
proof (induction t arbitrary: kp)
  case Nil
  then show ?case by (auto simp: hdr_at_def Let_def split: if_splits)
next
  case (Cons x xs)
  show ?case
  proof (cases "hdr_at mark h (x # xs)")
    case None
    with Cons.prems obtain kp' where "find_hdr mark h xs = Some kp'" by auto
    from Cons.IH[OF this] show ?thesis by simp
  next
    case (Some r)
    from hdr_at_contains[OF Some] show ?thesis by simp
  qed
qed

lemma find_hdr_occurs:
  assumes "hdr_at mark h s = Some post"
  shows "\<exists>k post'. find_hdr mark h (pre @ s) = Some (k, post') \<and> k \<le> length pre"
proof (induction pre)
  case Nil
  show ?case using assms by (cases s) auto
next
  case (Cons x pre)
  then obtain k post' where f: "find_hdr mark h (pre @ s) = Some (k, post')" and k: "k \<le> length pre"
    by blast
  show ?case
  proof (cases "hdr_at mark h (x # pre @ s)")
    case None
    with f k show ?thesis by simp
  next
    case (Some r)
    then show ?thesis by simp
  qed
qed

lemma find_hdr_first:
  "find_hdr mark h t = Some (k, post) \<Longrightarrow>
   k \<le> length t \<and> hdr_at mark h (drop k t) = Some post \<and>
   (\<forall>j < k. hdr_at mark h (drop j t) = None)"
proof (induction t arbitrary: k)
  case Nil
  then show ?case by auto
next
  case (Cons x xs)
  show ?case
  proof (cases "hdr_at mark h (x # xs)")
    case None
    with Cons.prems obtain k' where f: "find_hdr mark h xs = Some (k', post)" and k: "k = Suc k'"
      by auto
    from Cons.IH[OF f] None k show ?thesis
      by (auto simp: less_Suc_eq_0_disj)
  next
    case (Some r)
    with Cons.prems show ?thesis by auto
  qed
qed

lemma parse_eq:
  "\<exists>rs. parseAnalysisFromText text =
     Inr \<lparr>overall_assessment =
            (case find_hdr ''##'' ''Overall Assessment'' text of
               None \<Rightarrow> []
             | Some (k, post) \<Rightarrow> js_trim (take_until next_hdr (dropWhile is_space post))),
          recommendations = rs,
          suggested_keywords =
            (case find_hdr ''##'' ''Suggested SEO Tags (13)'' text of
               None \<Rightarrow> []
             | Some (k, post) \<Rightarrow> keywords_of (take_until next_hdr (dropWhile is_space post))),
          sources = None\<rparr> \<and>
     parse_recommendations text = Inr rs"
  using parse_recommendations_ok[of "text"]
  by (auto simp: parseAnalysisFromText_def parse_assessment_eq parse_keywords_eq)

lemma js_trim_space_Cons: "is_space x \<Longrightarrow> js_trim (x # xs) = js_trim xs"
  by (simp add: js_trim_def)

lemma trim_upto_skip:
  "\<not> list_all is_space (take_until Q post) \<Longrightarrow>
   js_trim (take_until Q (dropWhile is_space post)) = js_trim (take_until Q post)"
proof (induction post)
  case Nil
  then show ?case by simp
next
  case (Cons x xs)
  show ?case
  proof (cases "is_space x")
    case False
    then show ?thesis by simp
  next
    case True
    with Cons.prems have nq: "\<not> Q (x # xs)" and r: "\<not> list_all is_space (take_until Q xs)"
      by (auto split: if_splits)
    from Cons.IH[OF r] True nq show ?thesis
      by (simp add: js_trim_space_Cons)
  qed
qed

section \<open>Claims about the analysis parser\<close>

text \<open>
  Claim C1, as the code has it: when the text has a tags header, the keyword list is
  made from the lines of the captured section in their order; from each line a \<^verbatim>\<open>-\<close>
  that is its first character is removed, then the line is trimmed; lines that are
  empty after that are dropped, and each remaining line is cut to its first 20
  characters.
\<close>

theorem keywords_of_tags_section:
  assumes "find_hdr ''##'' ''Suggested SEO Tags (13)'' text = Some (k, post)"
  shows "\<exists>a. parseAnalysisFromText text = Inr a \<and>
           suggested_keywords a =
             map (take 20)
               (filter (\<lambda>l. l \<noteq> [])
                 (map (\<lambda>l. js_trim (strip_dash l))
                   (js_split CHR 0x0A (take_until next_hdr (dropWhile is_space post)))))"
  using parse_eq[of "text"] assms by (auto simp: keywords_of_eq)

text \<open>The theorem at the specification's keyword line: the result has 20 characters.\<close>

theorem keywords_of_tags_section_witness:
  "find_hdr ''##'' ''Suggested SEO Tags (13)''
     ''## Suggested SEO Tags (13)\<newline>- Handmade Wood Sign For Wedding Welcome''
     = Some (0, ''\<newline>- Handmade Wood Sign For Wedding Welcome'') \<and>
   parseAnalysisFromText ''## Suggested SEO Tags (13)\<newline>- Handmade Wood Sign For Wedding Welcome''
     = Inr \<lparr>overall_assessment = [], recommendations = [],
            suggested_keywords = [''Handmade Wood Sign F''], sources = None\<rparr>"
proof -
  have h: "find_hdr ''##'' ''Suggested SEO Tags (13)''
     ''## Suggested SEO Tags (13)\<newline>- Handmade Wood Sign For Wedding Welcome''
     = Some (0, ''\<newline>- Handmade Wood Sign For Wedding Welcome'')"
    by code_simp
  have p: "parseAnalysisFromText ''## Suggested SEO Tags (13)\<newline>- Handmade Wood Sign For Wedding Welcome''
     = Inr \<lparr>overall_assessment = [], recommendations = [],
            suggested_keywords = [''Handmade Wood Sign F''], sources = None\<rparr>"
    by code_simp
  show ?thesis
    using keywords_of_tags_section[OF h] by (simp only: h p simp_thms)
qed

text \<open>
  The keyword the specification gives for that line has 22 characters; the parser's
  has 20.  Lines of 19, 20 and 21 characters give keywords of 19, 20 and 20.
\<close>

theorem keyword_example_counterexample:
  "parseAnalysisFromText ''## Suggested SEO Tags (13)\<newline>- Handmade Wood Sign For Wedding Welcome''
     = Inr \<lparr>overall_assessment = [], recommendations = [],
            suggested_keywords = [''Handmade Wood Sign F''], sources = None\<rparr> \<and>
   ''Handmade Wood Sign F'' \<noteq> ''Handmade Wood Sign For''"
  by code_simp

lemma keyword_boundary:
  "parseAnalysisFromText
     ''## Suggested SEO Tags (13)\<newline>- 1234567890123456789\<newline>- 12345678901234567890\<newline>- 123456789012345678901''
   = Inr \<lparr>overall_assessment = [], recommendations = [],
          suggested_keywords =
            [''1234567890123456789'', ''12345678901234567890'', ''12345678901234567890''],
          sources = None\<rparr>"
  by code_simp

text \<open>
  Claim C5: the parser returns an analysis for every text and never raises; without
  the assessment header the assessment is the empty string, without the tags header
  the keyword list is empty, without the recommendations header the recommendation
  list is empty.
\<close>

theorem missing_sections_default:
  "\<exists>a. parseAnalysisFromText text = Inr a \<and>
       (find_hdr ''##'' ''Overall Assessment'' text = None \<longrightarrow> overall_assessment a = []) \<and>
       (find_hdr ''##'' ''Suggested SEO Tags (13)'' text = None \<longrightarrow> suggested_keywords a = []) \<and>
       (find_hdr ''##'' ''Actionable Recommendations'' text = None \<longrightarrow> recommendations a = [])"
proof -
  from parse_eq[of "text"] obtain rs a where
    a: "parseAnalysisFromText text = Inr a" and r: "parse_recommendations text = Inr rs"
    and o: "overall_assessment a = (case find_hdr ''##'' ''Overall Assessment'' text of
               None \<Rightarrow> []
             | Some (k, post) \<Rightarrow> js_trim (take_until next_hdr (dropWhile is_space post)))"
    and kw: "suggested_keywords a = (case find_hdr ''##'' ''Suggested SEO Tags (13)'' text of
               None \<Rightarrow> []
             | Some (k, post) \<Rightarrow> keywords_of (take_until next_hdr (dropWhile is_space post)))"
    and rr: "recommendations a = rs"
    by auto
  have "find_hdr ''##'' ''Actionable Recommendations'' text = None \<longrightarrow> rs = []"
    using parse_recommendations_absent[of "text"] r by auto
  with a o kw rr show ?thesis by auto
qed

text \<open>The theorem at the empty string and at a text without any header.\<close>

theorem missing_sections_default_witness:
  "find_hdr ''##'' ''Overall Assessment'' [] = None \<and>
   find_hdr ''##'' ''Suggested SEO Tags (13)'' [] = None \<and>
   find_hdr ''##'' ''Actionable Recommendations'' [] = None \<and>
   parseAnalysisFromText [] =
     Inr \<lparr>overall_assessment = [], recommendations = [], suggested_keywords = [],
          sources = None\<rparr> \<and>
   find_hdr ''##'' ''Overall Assessment'' ''# Notes: none {'' = None \<and>
   find_hdr ''##'' ''Suggested SEO Tags (13)'' ''# Notes: none {'' = None \<and>
   find_hdr ''##'' ''Actionable Recommendations'' ''# Notes: none {'' = None \<and>
   parseAnalysisFromText ''# Notes: none {'' =
     Inr \<lparr>overall_assessment = [], recommendations = [], suggested_keywords = [],
          sources = None\<rparr>"
proof -
  have h: "find_hdr ''##'' ''Overall Assessment'' [] = None"
    "find_hdr ''##'' ''Suggested SEO Tags (13)'' [] = None"
    "find_hdr ''##'' ''Actionable Recommendations'' [] = None"
    "find_hdr ''##'' ''Overall Assessment'' ''# Notes: none {'' = None"
    "find_hdr ''##'' ''Suggested SEO Tags (13)'' ''# Notes: none {'' = None"
    "find_hdr ''##'' ''Actionable Recommendations'' ''# Notes: none {'' = None"
    by code_simp+
  have p: "parseAnalysisFromText [] =
     Inr \<lparr>overall_assessment = [], recommendations = [], suggested_keywords = [],
          sources = None\<rparr>"
    "parseAnalysisFromText ''# Notes: none {'' =
     Inr \<lparr>overall_assessment = [], recommendations = [], suggested_keywords = [],
          sources = None\<rparr>"
    by code_simp+
  show ?thesis
    using missing_sections_default[of "[]"] missing_sections_default[of "''# Notes: none {''"]
    by (simp only: h p simp_thms)
qed

text \<open>
  Claim C6, on a text whose element header has no name on its line: the parser takes
  the next line for the name, so that the suggestion line becomes the element and the
  suggestion is lost, and it keeps the record; by the specification's wording the
  element's name is empty and the record is dropped.
\<close>

theorem element_name_from_next_line:
  "parseAnalysisFromText
     ''## Actionable Recommendations\<newline>### Element:\<newline>#### Suggestion: Add keywords\<newline>#### Reasoning: Better SEO''
   = Inr \<lparr>overall_assessment = [],
          recommendations =
            [\<lparr>element = ''#### Suggestion: Add keywords'', suggestion = [],
               reasoning = ''Better SEO''\<rparr>],
          suggested_keywords = [], sources = None\<rparr> \<and>
   ref_recommendations
     ''## Actionable Recommendations\<newline>### Element:\<newline>#### Suggestion: Add keywords\<newline>#### Reasoning: Better SEO''
   = []"
  by code_simp

text \<open>On two well-formed entries the parser and the specification's wording agree:
  two records, in the order of the text, each with its own suggestion and reasoning.\<close>

lemma two_elements:
  "parseAnalysisFromText
     ''## Actionable Recommendations\<newline>### Element: T\<newline>#### Suggestion: s\<newline>#### Reasoning: r\<newline>### Element: P\<newline>#### Suggestion: m\<newline>#### Reasoning: t''
   = Inr \<lparr>overall_assessment = [],
          recommendations =
            [\<lparr>element = ''T'', suggestion = ''s'', reasoning = ''r''\<rparr>,
             \<lparr>element = ''P'', suggestion = ''m'', reasoning = ''t''\<rparr>],
          suggested_keywords = [], sources = None\<rparr>"
  "ref_recommendations
     ''## Actionable Recommendations\<newline>### Element: T\<newline>#### Suggestion: s\<newline>#### Reasoning: r\<newline>### Element: P\<newline>#### Suggestion: m\<newline>#### Reasoning: t''
   = [\<lparr>element = ''T'', suggestion = ''s'', reasoning = ''r''\<rparr>,
      \<lparr>element = ''P'', suggestion = ''m'', reasoning = ''t''\<rparr>]"
  by code_simp+

text \<open>
  Claim C7, as the code has it: when the text has an assessment header and the text
  between the header and the next line that begins with \<^verbatim>\<open>##\<close> (a deeper header
  \<^verbatim>\<open>###\<close> or \<^verbatim>\<open>####\<close> is such a line) or the end of the text is not blank, the
  assessment is that text, trimmed.
\<close>

theorem assessment_section:
  assumes "find_hdr ''##'' ''Overall Assessment'' text = Some (k, post)"
    and "\<not> list_all is_space (take_until next_hdr post)"
  shows "\<exists>a. parseAnalysisFromText text = Inr a \<and>
           overall_assessment a = js_trim (take_until next_hdr post)"
  using parse_eq[of "text"] assms by (auto simp: trim_upto_skip)

text \<open>The theorem at a section that holds a deeper header.\<close>

theorem assessment_section_witness:
  "find_hdr ''##'' ''Overall Assessment''
     ''## Overall Assessment\<newline>Good\<newline>### Detail\<newline>more\<newline>## Next''
     = Some (0, ''\<newline>Good\<newline>### Detail\<newline>more\<newline>## Next'') \<and>
   \<not> list_all is_space
       (take_until next_hdr ''\<newline>Good\<newline>### Detail\<newline>more\<newline>## Next'') \<and>
   parseAnalysisFromText ''## Overall Assessment\<newline>Good\<newline>### Detail\<newline>more\<newline>## Next''
     = Inr \<lparr>overall_assessment = ''Good'', recommendations = [], suggested_keywords = [],
            sources = None\<rparr>"
proof -
  have h: "find_hdr ''##'' ''Overall Assessment''
     ''## Overall Assessment\<newline>Good\<newline>### Detail\<newline>more\<newline>## Next''
     = Some (0, ''\<newline>Good\<newline>### Detail\<newline>more\<newline>## Next'')"
    by code_simp
  have b: "\<not> list_all is_space
       (take_until next_hdr ''\<newline>Good\<newline>### Detail\<newline>more\<newline>## Next'')"
    by code_simp
  have p: "parseAnalysisFromText ''## Overall Assessment\<newline>Good\<newline>### Detail\<newline>more\<newline>## Next''
     = Inr \<lparr>overall_assessment = ''Good'', recommendations = [], suggested_keywords = [],
            sources = None\<rparr>"
    by code_simp
  show ?thesis
    using assessment_section[OF h b] b by (simp only: h p simp_thms)
qed

text \<open>
  With the section read as running to the next top-level header, the assessment of
  that text would hold the deeper header and what follows it; the parser's stops
  before the deeper header.
\<close>

theorem deeper_header_counterexample:
  "parseAnalysisFromText ''## Overall Assessment\<newline>Good\<newline>### Detail\<newline>more\<newline>## Next''
     = Inr \<lparr>overall_assessment = ''Good'', recommendations = [], suggested_keywords = [],
            sources = None\<rparr> \<and>
   spec_overall_assessment ''## Overall Assessment\<newline>Good\<newline>### Detail\<newline>more\<newline>## Next''
     = ''Good\<newline>### Detail\<newline>more''"
  by code_simp

text \<open>
  Claim C8: a text in which the string \<^verbatim>\<open>Suggested SEO Tags (13)\<close> does not occur has
  an empty keyword list.
\<close>

theorem other_label_no_keywords:
  assumes "\<not> contains ''Suggested SEO Tags (13)'' text"
  shows "\<exists>a. parseAnalysisFromText text = Inr a \<and> suggested_keywords a = []"
proof -
  have "find_hdr ''##'' ''Suggested SEO Tags (13)'' text = None"
    using find_hdr_contains[of "''##''" "''Suggested SEO Tags (13)''" "text"] assms
    by (cases "find_hdr ''##'' ''Suggested SEO Tags (13)'' text") auto
  with parse_eq[of "text"] show ?thesis by auto
qed

text \<open>The theorem at a tags section labelled with another count.\<close>

theorem other_label_no_keywords_witness:
  "\<not> contains ''Suggested SEO Tags (13)'' ''## Suggested SEO Tags (12)\<newline>- oak sign\<newline>- gift'' \<and>
   parseAnalysisFromText ''## Suggested SEO Tags (12)\<newline>- oak sign\<newline>- gift''
     = Inr \<lparr>overall_assessment = [], recommendations = [], suggested_keywords = [],
            sources = None\<rparr>"
proof -
  have h: "\<not> contains ''Suggested SEO Tags (13)'' ''## Suggested SEO Tags (12)\<newline>- oak sign\<newline>- gift''"
    by code_simp
  have p: "parseAnalysisFromText ''## Suggested SEO Tags (12)\<newline>- oak sign\<newline>- gift''
     = Inr \<lparr>overall_assessment = [], recommendations = [], suggested_keywords = [],
            sources = None\<rparr>"
    by code_simp
  show ?thesis
    using other_label_no_keywords[OF h] h by (simp only: p simp_thms)
qed

text \<open>
  Claim C10: the header patterns are not anchored to the start of a line.  Wherever
  \<^verbatim>\<open>##\<close>, white space and the header's label occur in the text, whatever comes before
  them, the pattern matches at the leftmost such place, and the assessment, or the
  keyword list, is taken from what follows it.
\<close>

theorem header_matched_anywhere:
  assumes "list_all is_space ws"
  shows "(\<exists>k post' a.
            find_hdr ''##'' ''Overall Assessment'' (pre @ ''##'' @ ws @ ''Overall Assessment'' @ post)
              = Some (k, post') \<and> k \<le> length pre \<and>
            parseAnalysisFromText (pre @ ''##'' @ ws @ ''Overall Assessment'' @ post) = Inr a \<and>
            overall_assessment a = js_trim (take_until next_hdr (dropWhile is_space post'))) \<and>
         (\<exists>k post' a.
            find_hdr ''##'' ''Suggested SEO Tags (13)''
                (pre @ ''##'' @ ws @ ''Suggested SEO Tags (13)'' @ post)
              = Some (k, post') \<and> k \<le> length pre \<and>
            parseAnalysisFromText (pre @ ''##'' @ ws @ ''Suggested SEO Tags (13)'' @ post) = Inr a \<and>
            suggested_keywords a = keywords_of (take_until next_hdr (dropWhile is_space post')))"
proof
  have "hdr_at ''##'' ''Overall Assessment'' (''##'' @ ws @ ''Overall Assessment'' @ post) = Some post"
    using assms by (subst hdr_at_iff) (auto simp: is_space_def)
  from find_hdr_occurs[OF this, of pre] obtain k post' where
    f: "find_hdr ''##'' ''Overall Assessment'' (pre @ ''##'' @ ws @ ''Overall Assessment'' @ post)
          = Some (k, post')" and k: "k \<le> length pre" by blast
  with parse_eq[of "pre @ ''##'' @ ws @ ''Overall Assessment'' @ post"]
  show "\<exists>k post' a.
            find_hdr ''##'' ''Overall Assessment'' (pre @ ''##'' @ ws @ ''Overall Assessment'' @ post)
              = Some (k, post') \<and> k \<le> length pre \<and>
            parseAnalysisFromText (pre @ ''##'' @ ws @ ''Overall Assessment'' @ post) = Inr a \<and>
            overall_assessment a = js_trim (take_until next_hdr (dropWhile is_space post'))"
    by auto
next
  have "hdr_at ''##'' ''Suggested SEO Tags (13)'' (''##'' @ ws @ ''Suggested SEO Tags (13)'' @ post)
          = Some post"
    using assms by (subst hdr_at_iff) (auto simp: is_space_def)
  from find_hdr_occurs[OF this, of pre] obtain k post' where
    f: "find_hdr ''##'' ''Suggested SEO Tags (13)''
          (pre @ ''##'' @ ws @ ''Suggested SEO Tags (13)'' @ post) = Some (k, post')"
    and k: "k \<le> length pre" by blast
  with parse_eq[of "pre @ ''##'' @ ws @ ''Suggested SEO Tags (13)'' @ post"]
  show "\<exists>k post' a.
            find_hdr ''##'' ''Suggested SEO Tags (13)''
                (pre @ ''##'' @ ws @ ''Suggested SEO Tags (13)'' @ post)
              = Some (k, post') \<and> k \<le> length pre \<and>
            parseAnalysisFromText (pre @ ''##'' @ ws @ ''Suggested SEO Tags (13)'' @ post) = Inr a \<and>
            suggested_keywords a = keywords_of (take_until next_hdr (dropWhile is_space post'))"
    by auto
qed

text \<open>The theorem under a deeper header and in the middle of a line: both texts get a
  non-empty assessment.\<close>

theorem header_matched_anywhere_witness:
  "list_all is_space '' '' \<and>
   parseAnalysisFromText (''##'' @ ''##'' @ '' '' @ ''Overall Assessment'' @ ''\<newline>Good'')
     = Inr \<lparr>overall_assessment = ''Good'', recommendations = [], suggested_keywords = [],
            sources = None\<rparr> \<and>
   parseAnalysisFromText (''Intro '' @ ''##'' @ '' '' @ ''Overall Assessment'' @ '' Good'')
     = Inr \<lparr>overall_assessment = ''Good'', recommendations = [], suggested_keywords = [],
            sources = None\<rparr>"
proof -
  have h: "list_all is_space '' ''"
    by code_simp
  have p: "parseAnalysisFromText (''##'' @ ''##'' @ '' '' @ ''Overall Assessment'' @ ''\<newline>Good'')
     = Inr \<lparr>overall_assessment = ''Good'', recommendations = [], suggested_keywords = [],
            sources = None\<rparr>"
    "parseAnalysisFromText (''Intro '' @ ''##'' @ '' '' @ ''Overall Assessment'' @ '' Good'')
     = Inr \<lparr>overall_assessment = ''Good'', recommendations = [], suggested_keywords = [],
            sources = None\<rparr>"
    by code_simp+
  show ?thesis
    using header_matched_anywhere[OF h, of "''##''" "''\<newline>Good''"]
      header_matched_anywhere[OF h, of "''Intro ''" "'' Good''"] h
    by (simp only: p simp_thms)
qed

section \<open>Claims about the response cache\<close>

lemma fold_delete_map_of:
  "map_of (fold (\<lambda>(key, entry) m. if now > expiry entry then AList.delete key m else m) xs m) k =
     (if \<exists>e. (k, e) \<in> set xs \<and> now > expiry e then None else map_of m k)"
proof (induction xs arbitrary: m)
  case Nil
  then show ?case by simp
next
  case (Cons x xs)
  obtain key entry where x: "x = (key, entry)" by (cases x)
  show ?case
    unfolding x by (auto simp: Cons.IH delete_conv')
qed

lemma fold_delete_distinct:
  "distinct (map fst m) \<Longrightarrow>
   distinct (map fst (fold (\<lambda>(key, entry) m. if now > expiry entry then AList.delete key m else m) xs m))"
  by (induction xs arbitrary: m) (auto simp: distinct_delete)

lemma cleanup_map_of:
  assumes "distinct (map fst c)"
  shows "map_of (cleanup now c) k =
     (case map_of c k of None \<Rightarrow> None | Some e \<Rightarrow> if now > expiry e then None else Some e)"
proof (cases "map_of c k")
  case None
  then show ?thesis
    by (auto simp: cleanup_def fold_delete_map_of)
next
  case (Some e)
  have "(k, e') \<in> set c \<longleftrightarrow> e' = e" for e'
  proof -
    have "(map_of c k = Some e') = ((k, e') \<in> set c)"
      by (rule map_of_eq_Some_iff[OF assms])
    then show ?thesis using Some by auto
  qed
  then show ?thesis using Some
    by (simp add: cleanup_def fold_delete_map_of)
qed

lemma cleanup_distinct: "distinct (map fst c) \<Longrightarrow> distinct (map fst (cleanup now c))"
  unfolding cleanup_def by (rule fold_delete_distinct)

lemma cache_set_distinct: "distinct (map fst c) \<Longrightarrow> distinct (map fst (cache_set k v ttl t1 t2 c))"
  by (simp add: cache_set_def distinct_update)

lemma cache_get_distinct: "distinct (map fst c) \<Longrightarrow> distinct (map fst (snd (cache_get k now c)))"
  by (auto simp: cache_get_def distinct_delete split: option.splits)

lemma get_after_set_fresh:
  "now \<le> t2 + ttl \<Longrightarrow>
   cache_get k now (cache_set k v (Some ttl) t1 t2 c) = (Some v, cache_set k v (Some ttl) t1 t2 c)"
  by (simp add: cache_get_def cache_set_def update_conv')

lemma get_after_set_expired:
  "t2 + ttl < now \<Longrightarrow>
   fst (cache_get k now (cache_set k v (Some ttl) t1 t2 c)) = None \<and>
   map_of (snd (cache_get k now (cache_set k v (Some ttl) t1 t2 c))) k = None"
  by (simp add: cache_get_def cache_set_def update_conv' delete_conv')

lemma get_after_cleanup:
  assumes "distinct (map fst c)" "t' \<le> now"
  shows "fst (cache_get k now (cleanup t' c)) = fst (cache_get k now c)"
  using assms by (auto simp: cache_get_def cleanup_map_of split: option.splits)

lemma default_ttl:
  "map_of (cache_set k v None t1 t2 c) k = Some \<lparr>data = v, timestamp = t1, expiry = t2 + 300000\<rparr>"
  by (simp add: cache_set_def update_conv' DEFAULT_TTL_def)

text \<open>
  Claim C4: after \<open>set(k, v, ttl)\<close>, a \<open>get(k)\<close> at a time up to the entry's expiry
  returns \<open>v\<close> and leaves the cache as it is; a \<open>get(k)\<close> after the expiry returns
  nothing and removes the entry; a sweep between the two calls does not change what
  the \<open>get\<close> returns; \<open>cleanup\<close> removes the entries whose expiry has passed and no
  other, and keeps the keys distinct.
\<close>

theorem cache_expiry:
  assumes "distinct (map fst c)"
  shows "(now \<le> t2 + ttl \<longrightarrow>
            cache_get k now (cache_set k v (Some ttl) t1 t2 c)
              = (Some v, cache_set k v (Some ttl) t1 t2 c)) \<and>
         (t2 + ttl < now \<longrightarrow>
            fst (cache_get k now (cache_set k v (Some ttl) t1 t2 c)) = None \<and>
            map_of (snd (cache_get k now (cache_set k v (Some ttl) t1 t2 c))) k = None) \<and>
         (t2 \<le> t' \<and> t' \<le> now \<longrightarrow>
            fst (cache_get k now (cleanup t' (cache_set k v (Some ttl) t1 t2 c)))
              = (if now \<le> t2 + ttl then Some v else None)) \<and>
         (\<forall>j. map_of (cleanup now c) j =
                (case map_of c j of
                   None \<Rightarrow> None
                 | Some e \<Rightarrow> if expiry e < now then None else Some e)) \<and>
         distinct (map fst (cleanup now c)) \<and>
         distinct (map fst (cache_set k v (Some ttl) t1 t2 c))"
proof -
  have d: "distinct (map fst (cache_set k v (Some ttl) t1 t2 c))"
    by (rule cache_set_distinct[OF assms])
  have "t' \<le> now \<longrightarrow>
            fst (cache_get k now (cleanup t' (cache_set k v (Some ttl) t1 t2 c)))
              = (if now \<le> t2 + ttl then Some v else None)"
    using get_after_cleanup[OF d, of t' now k] get_after_set_fresh[of now t2 ttl k v t1 c]
      get_after_set_expired[of t2 ttl now k v t1 c]
    by auto
  then show ?thesis
    using get_after_set_fresh[of now t2 ttl k v t1 c] get_after_set_expired[of t2 ttl now k v t1 c]
      cleanup_map_of[OF assms, of now] cleanup_distinct[OF assms, of now] d
    by auto
qed

text \<open>The theorem at the specification's example, with the clock at 10000 when the
  entry is set, and a sweep over three entries.\<close>

theorem cache_expiry_witness:
  "distinct (map fst
     [(''a'', \<lparr>data = 1::nat, timestamp = 0, expiry = 11000\<rparr>),
      (''b'', \<lparr>data = 2, timestamp = 0, expiry = 11001\<rparr>),
      (''c'', \<lparr>data = 3, timestamp = 0, expiry = 5\<rparr>)]) \<and>
   cache_get ''k'' (10000 + 500) (cache_set ''k'' (7::nat) (Some 1000) 10000 10000 [])
     = (Some 7, [(''k'', \<lparr>data = 7, timestamp = 10000, expiry = 11000\<rparr>)]) \<and>
   cache_get ''k'' (10000 + 1500) (cache_set ''k'' (7::nat) (Some 1000) 10000 10000 [])
     = (None, []) \<and>
   fst (cache_get ''k'' (10000 + 500)
          (cache_set ''k'' 7 (Some 1000) 10000 10000
             [(''a'', \<lparr>data = 1::nat, timestamp = 0, expiry = 11000\<rparr>),
              (''b'', \<lparr>data = 2, timestamp = 0, expiry = 11001\<rparr>),
              (''c'', \<lparr>data = 3, timestamp = 0, expiry = 5\<rparr>)]))
     = Some 7 \<and>
   fst (cache_get ''k'' (10000 + 1500)
          (cache_set ''k'' 7 (Some 1000) 10000 10000
             [(''a'', \<lparr>data = 1::nat, timestamp = 0, expiry = 11000\<rparr>),
              (''b'', \<lparr>data = 2, timestamp = 0, expiry = 11001\<rparr>),
              (''c'', \<lparr>data = 3, timestamp = 0, expiry = 5\<rparr>)]))
     = None \<and>
   cleanup 11001
     [(''a'', \<lparr>data = 1::nat, timestamp = 0, expiry = 11000\<rparr>),
      (''b'', \<lparr>data = 2, timestamp = 0, expiry = 11001\<rparr>),
      (''c'', \<lparr>data = 3, timestamp = 0, expiry = 5\<rparr>)]
     = [(''b'', \<lparr>data = 2, timestamp = 0, expiry = 11001\<rparr>)]"
proof -
  have d: "distinct (map fst
     [(''a'', \<lparr>data = 1::nat, timestamp = 0, expiry = 11000\<rparr>),
      (''b'', \<lparr>data = 2, timestamp = 0, expiry = 11001\<rparr>),
      (''c'', \<lparr>data = 3, timestamp = 0, expiry = 5\<rparr>)])"
    by simp
  show ?thesis
    using cache_expiry[OF d, where now = 10500 and ?t2.0 = 10000 and ttl = 1000 and k = "''k''"
        and v = 7 and ?t1.0 = 10000 and t' = 10200]
    by (simp add: cache_get_def cache_set_def cleanup_def)
qed

section \<open>Claims about the request queue\<close>

lemma inv_init: "queue_inv empty_queue"
  by (simp add: queue_inv_def empty_queue_def)

lemma upt_split:
  assumes "xs @ ys = [0..<n]"
  shows "distinct (xs @ ys)" and "set xs \<union> set ys = {0..<n}"
proof -
  show "distinct (xs @ ys)" unfolding assms by simp
  have "set (xs @ ys) = {0..<n}" unfolding assms by simp
  then show "set xs \<union> set ys = {0..<n}" by simp
qed

lemma inv_add:
  assumes "queue_inv q"
  shows "queue_inv (add q)"
proof -
  note i = assms[unfolded queue_inv_def]
  from i have sq: "started q @ queue q = [0..<added q]" by simp
  have fresh: "added q \<notin> set (started q)" "added q \<notin> set (queue q)"
    using upt_split(2)[OF sq] by auto
  have nxt: "started q @ queue q @ [added q] = [0..<Suc (added q)]"
    using sq by (simp flip: append_assoc)
  show ?thesis
  proof (cases "queue q")
    case Nil
    show ?thesis
    proof (cases "activeRequests q \<ge> maxConcurrent")
      case True
      with i Nil nxt show ?thesis
        by (auto simp: queue_inv_def add_def processQueue_def)
    next
      case False
      with i Nil nxt fresh show ?thesis
        by (auto simp: queue_inv_def add_def processQueue_def)
    qed
  next
    case (Cons a list)
    with i have "activeRequests q \<ge> maxConcurrent" by simp
    with i Cons nxt show ?thesis
      by (auto simp: queue_inv_def add_def processQueue_def)
  qed
qed

lemma inv_complete:
  assumes "queue_inv q" "i \<in> set (running q)"
  shows "queue_inv (complete i r q)"
proof -
  note inv = assms(1)[unfolded queue_inv_def]
  from inv have sq: "started q @ queue q = [0..<added q]" by simp
  from inv have d: "distinct (running q)" by simp
  have len: "length (remove1 i (running q)) = length (running q) - 1"
    using assms(2) by (simp add: length_remove1)
  have pos: "0 < length (running q)" using assms(2) by (cases "running q") auto
  have w: "wrapper r = r" by (cases r) (simp_all add: wrapper_def)
  show ?thesis
  proof (cases "queue q")
    case Nil
    with inv d len pos w assms(2) show ?thesis
      by (auto simp: queue_inv_def complete_def processQueue_def)
  next
    case (Cons a list)
    have a: "a \<notin> set (started q)"
      using upt_split(1)[OF sq] Cons by auto
    from inv Cons have full: "length (running q) = maxConcurrent" by simp
    have go: "\<not> (length (running q) - 1 \<ge> maxConcurrent)"
      using full by (simp add: maxConcurrent_def)
    from inv d len pos w assms(2) Cons a full go sq show ?thesis
      by (auto simp: queue_inv_def complete_def processQueue_def maxConcurrent_def)
  qed
qed

lemma reachable_inv: "reachable q \<Longrightarrow> queue_inv q"
  by (induction rule: reachable.induct) (auto intro: inv_init inv_add inv_complete)

text \<open>
  Claim C3: in every reachable state at most three tasks are in flight, and the
  counter is the number of running tasks; the tasks started so far, followed by the
  pending ones, are the submitted tasks in the order of submission; a task is pending
  only while three are in flight; and when a running task completes, whatever its
  outcome, the first pending task is started at once.
\<close>

theorem queue_discipline:
  assumes "reachable q"
  shows "activeRequests q \<le> maxConcurrent \<and>
         length (running q) = activeRequests q \<and>
         started q @ queue q = [0..<added q] \<and>
         (queue q \<noteq> [] \<longrightarrow> length (running q) = maxConcurrent) \<and>
         (\<forall>i r. i \<in> set (running q) \<and> queue q \<noteq> [] \<longrightarrow>
            running (complete i r q) = remove1 i (running q) @ [hd (queue q)] \<and>
            queue (complete i r q) = tl (queue q) \<and>
            started (complete i r q) = started q @ [hd (queue q)])"
proof -
  note inv = reachable_inv[OF assms, unfolded queue_inv_def]
  have "running (complete i r q) = remove1 i (running q) @ [hd (queue q)] \<and>
        queue (complete i r q) = tl (queue q) \<and>
        started (complete i r q) = started q @ [hd (queue q)]"
    if "i \<in> set (running q)" "queue q \<noteq> []" for i and r :: "('a, 'b) outcome"
  proof -
    from inv that have "activeRequests q = maxConcurrent" by simp
    then have "\<not> (activeRequests q - 1 \<ge> maxConcurrent)"
      by (simp add: maxConcurrent_def)
    with that show ?thesis
      by (cases "queue q") (simp_all add: complete_def processQueue_def)
  qed
  with inv show ?thesis by auto
qed

text \<open>The theorem after five submissions: three tasks run and two wait; the fourth
  starts when one of the three completes, successfully or not.\<close>

theorem queue_discipline_witness:
  "reachable (add (add (add (add (add (empty_queue :: (nat, string) RequestQueue)))))) \<and>
   running (add (add (add (empty_queue :: (nat, string) RequestQueue)))) = [0, 1, 2] \<and>
   running (add (add (add (add (add (empty_queue :: (nat, string) RequestQueue)))))) = [0, 1, 2] \<and>
   queue (add (add (add (add (add (empty_queue :: (nat, string) RequestQueue)))))) = [3, 4] \<and>
   activeRequests (add (add (add (add (add (empty_queue :: (nat, string) RequestQueue)))))) = 3 \<and>
   running (complete 1 (Rejected ''failed'')
             (add (add (add (add (add (empty_queue :: (nat, string) RequestQueue)))))))
     = [0, 2, 3] \<and>
   queue (complete 1 (Rejected ''failed'')
             (add (add (add (add (add (empty_queue :: (nat, string) RequestQueue)))))))
     = [4] \<and>
   running (complete 0 (Resolved 7)
             (add (add (add (add (add (empty_queue :: (nat, string) RequestQueue)))))))
     = [1, 2, 3]"
proof -
  have r: "reachable (add (add (add (add (add (empty_queue :: (nat, string) RequestQueue))))))"
    by (intro reachable.add reachable.init)
  show ?thesis
    using queue_discipline[OF r] r
    by (simp add: add_def processQueue_def complete_def empty_queue_def maxConcurrent_def)
qed

text \<open>
  Claim C9: in every reachable state, \<open>add\<close> submits a new task, pending or running
  after the call, and settles no promise; every submitted task is pending, running or
  has its promise settled, and the promise of a pending or running task is not settled;
  a task is pending only while three others run; the completion of a running task
  settles its promise with exactly the task's outcome, a value or a reason, takes the
  task out of the running ones and changes no other promise; nothing but a running
  task can complete; and a settled promise keeps its outcome through every later step.
\<close>

theorem promise_outcome:
  assumes "reachable q"
  shows "added (add q) = Suc (added q) \<and>
         added q \<in> set (queue (add q)) \<union> set (running (add q)) \<and>
         promises (add q) = promises q \<and>
         (\<forall>i. i < added q \<longleftrightarrow>
                i \<in> set (queue q) \<or> i \<in> set (running q) \<or> promises q i \<noteq> None) \<and>
         (\<forall>i. i \<in> set (queue q) \<union> set (running q) \<longrightarrow> promises q i = None) \<and>
         (\<forall>i. i \<in> set (queue q) \<longrightarrow> length (running q) = maxConcurrent) \<and>
         promises q = settled q \<and>
         (\<forall>i r. i \<in> set (running q) \<longrightarrow>
            promises (complete i r q) i = Some r \<and>
            i \<notin> set (running (complete i r q)) \<and>
            (\<forall>j. j \<noteq> i \<longrightarrow> promises (complete i r q) j = promises q j)) \<and>
         (\<forall>i r. i \<notin> set (running q) \<longrightarrow> complete i r q = q) \<and>
         (\<forall>i r j r'. promises q i = Some r \<longrightarrow>
            promises (add q) i = Some r \<and> promises (complete j r' q) i = Some r)"
proof -
  note inv = reachable_inv[OF assms, unfolded queue_inv_def]
  from inv have sq: "started q @ queue q = [0..<added q]" by simp
  from inv have d: "distinct (running q)" by simp
  have w: "wrapper r = r" for r :: "('a, 'b) outcome"
    by (cases r) (simp_all add: wrapper_def)
  have a1: "added (add q) = Suc (added q)"
    by (cases "queue q") (simp_all add: add_def processQueue_def)
  have a2: "added q \<in> set (queue (add q)) \<union> set (running (add q))"
    by (cases "queue q") (simp_all add: add_def processQueue_def)
  have a3: "promises (add q) = promises q"
    by (cases "queue q") (simp_all add: add_def processQueue_def)
  have part: "i < added q \<longleftrightarrow>
      i \<in> set (queue q) \<or> i \<in> set (running q) \<or> promises q i \<noteq> None" for i
  proof -
    have "i < added q \<longleftrightarrow> i \<in> set (started q) \<union> set (queue q)"
      using upt_split(2)[OF sq] by auto
    with inv show ?thesis by auto
  qed
  have unset: "promises q i = None" if "i \<in> set (queue q) \<union> set (running q)" for i
  proof (cases "i \<in> set (running q)")
    case True
    with inv show ?thesis by auto
  next
    case False
    with that have "i \<in> set (queue q)" by simp
    with upt_split(1)[OF sq] have "i \<notin> set (started q)" by auto
    with inv show ?thesis by auto
  qed
  have full: "length (running q) = maxConcurrent" if "i \<in> set (queue q)" for i
  proof -
    from that have "queue q \<noteq> []" by auto
    with inv show ?thesis by simp
  qed
  have p: "promises (complete i r q) = (promises q)(i \<mapsto> r)"
    if "i \<in> set (running q)" for i and r :: "('a, 'b) outcome"
    using that by (cases "queue q") (simp_all add: complete_def processQueue_def w)
  have gone: "i \<notin> set (running (complete i r q))"
    if "i \<in> set (running q)" for i and r :: "('a, 'b) outcome"
  proof (cases "queue q")
    case Nil
    with that d show ?thesis by (simp add: complete_def processQueue_def)
  next
    case (Cons a list)
    have "a \<notin> set (started q)" using upt_split(1)[OF sq] Cons by auto
    with inv that have "a \<noteq> i" by auto
    with that d Cons show ?thesis by (simp add: complete_def processQueue_def)
  qed
  have idle: "complete i r q = q" if "i \<notin> set (running q)" for i and r :: "('a, 'b) outcome"
    using that by (simp add: complete_def)
  have keep: "promises (complete j r' q) i = Some r"
    if "promises q i = Some r" for i j and r r' :: "('a, 'b) outcome"
  proof (cases "j \<in> set (running q)")
    case True
    from that inv have "i \<notin> set (running q)" by auto
    with True have "j \<noteq> i" by auto
    with p[OF True] that show ?thesis by simp
  next
    case False
    with idle that show ?thesis by simp
  qed
  from a1 a2 a3 part unset full p gone idle keep inv show ?thesis
    by (simp add: a3)
qed

text \<open>The theorem after two submissions, for a rejected and for a resolved task; for a
  task that was never submitted; and for a fourth task, which waits, starts when the
  first task has completed, and is then rejected.\<close>

theorem promise_outcome_witness:
  "reachable (complete 3 (Rejected ''late'') (complete 0 (Resolved 1)
      (add (add (add (add (empty_queue :: (nat, string) RequestQueue))))))) \<and>
   running (add (add (empty_queue :: (nat, string) RequestQueue))) = [0, 1] \<and>
   promises (complete 1 (Rejected ''failed'') (add (add (empty_queue :: (nat, string) RequestQueue)))) 1
     = Some (Rejected ''failed'') \<and>
   promises (complete 0 (Resolved 7) (add (add (empty_queue :: (nat, string) RequestQueue)))) 0
     = Some (Resolved 7) \<and>
   promises (complete 0 (Resolved 7) (add (add (empty_queue :: (nat, string) RequestQueue)))) 1
     = None \<and>
   promises (complete 5 (Resolved 7) (add (add (empty_queue :: (nat, string) RequestQueue)))) 5
     = None \<and>
   queue (add (add (add (add (empty_queue :: (nat, string) RequestQueue))))) = [3] \<and>
   promises (complete 3 (Rejected ''late'')
      (add (add (add (add (empty_queue :: (nat, string) RequestQueue)))))) 3 = None \<and>
   running (complete 0 (Resolved 1)
      (add (add (add (add (empty_queue :: (nat, string) RequestQueue)))))) = [1, 2, 3] \<and>
   promises (complete 3 (Rejected ''late'') (complete 0 (Resolved 1)
      (add (add (add (add (empty_queue :: (nat, string) RequestQueue))))))) 3
     = Some (Rejected ''late'') \<and>
   promises (complete 3 (Rejected ''late'') (complete 0 (Resolved 1)
      (add (add (add (add (empty_queue :: (nat, string) RequestQueue))))))) 0
     = Some (Resolved 1)"
proof -
  have e: "running (add (add (add (add (empty_queue :: (nat, string) RequestQueue))))) = [0, 1, 2]"
    "running (complete 0 (Resolved 1)
      (add (add (add (add (empty_queue :: (nat, string) RequestQueue)))))) = [1, 2, 3]"
    by (simp_all add: add_def processQueue_def complete_def empty_queue_def maxConcurrent_def)
  have r4: "reachable (add (add (add (add (empty_queue :: (nat, string) RequestQueue)))))"
    by (intro reachable.add reachable.init)
  have r5: "reachable (complete 0 (Resolved 1)
      (add (add (add (add (empty_queue :: (nat, string) RequestQueue))))))"
    by (rule reachable.complete[OF r4]) (simp add: e)
  have r6: "reachable (complete 3 (Rejected ''late'') (complete 0 (Resolved 1)
      (add (add (add (add (empty_queue :: (nat, string) RequestQueue)))))))"
    by (rule reachable.complete[OF r5]) (simp only: e, simp)
  show ?thesis
    using promise_outcome[OF r6] r6
    by (simp add: add_def processQueue_def complete_def empty_queue_def maxConcurrent_def
        wrapper_def)
qed

section \<open>Claims about network calls\<close>






lemma timer_delay_cases:
  "1 \<le> delay \<Longrightarrow> delay \<le> TIMEOUT_MAX \<Longrightarrow> timer_delay delay = delay"
  "TIMEOUT_MAX < delay \<Longrightarrow> timer_delay delay = 1"
  "timer_delay 0 = 1"
  by (simp_all add: timer_delay_def)





end
